theory Spec2Isabelle
  imports Main "HOL-Library.Sublist"
begin

section \<open>JavaScript values, functions and the host object\<close>

text \<open>
  The values that flow through argument vectors. \<open>JError\<close> is an object for which
  \<^verbatim>\<open>instanceof Error\<close> holds; \<open>JFn\<close> is a reference to a user function (identity is
  the reference). The three closures the engine itself creates are kept apart:
  \<open>BeforeNext k\<close> is the continuation built by \<^verbatim>\<open>runBeforeHook\<close> whose captured
  \<^verbatim>\<open>nextBeforeHookCounter\<close> is \<open>k\<close>, \<open>AfterNext k\<close> the one built by
  \<^verbatim>\<open>runAfterHook\<close>, and \<open>TargetCallback\<close> the callback that
  \<^verbatim>\<open>runOriginalFunction\<close> hands to the original function.
\<close>

datatype val =
    JUndefined
  | JNull
  | JBool bool
  | JNum int
  | JStr string
  | JError string
  | JFn nat
  | BeforeNext nat
  | TargetCallback
  | AfterNext nat

fun instanceofError :: "val \<Rightarrow> bool" where
  "instanceofError (JError m) = True"
| "instanceofError v = False"

fun isFunction :: "val \<Rightarrow> bool" where
  "isFunction (JFn f) = True"
| "isFunction (BeforeNext k) = True"
| "isFunction TargetCallback = True"
| "isFunction (AfterNext k) = True"
| "isFunction v = False"

fun truthy :: "val \<Rightarrow> bool" where
  "truthy JUndefined = False"
| "truthy JNull = False"
| "truthy (JBool b) = b"
| "truthy (JNum n) = (n \<noteq> 0)"
| "truthy (JStr s) = (s \<noteq> [])"
| "truthy v = True"

text \<open>
  A hook or a target is a user function. What the engine needs from it is its declared
  parameter count (\<^verbatim>\<open>fn.length\<close>) and what it does with the continuation it is
  handed: it calls it once with some arguments (\<open>CallNext\<close>), or never (\<open>NoCall\<close>).
  The body sees the complete call vector, the continuation included. A function that
  calls its continuation twice is outside the model, as it is outside the contract of the
  library; whether the call comes at once or later makes no difference to the order of
  events, since nothing else runs in between.
\<close>

datatype reply = CallNext "val list" | NoCall

record func =
  arity :: nat
  body :: "val list \<Rightarrow> reply"

type_synonym fenv = "nat \<Rightarrow> func"

datatype exn = TypeError | AssertionError | HookError string

text \<open>
  The value bound to \<^verbatim>\<open>this[functionName]\<close>: nothing, a plain function, or the
  wrapper closure that \<^verbatim>\<open>_hook\<close> installs; the closure captures
  \<^verbatim>\<open>functionName\<close> and \<^verbatim>\<open>originalFunction\<close>.
\<close>

datatype meth = Absent | Target nat | Wrapper string meth

text \<open>
  The host object. \<^verbatim>\<open>this._before\<close> and \<^verbatim>\<open>this._after\<close> are plain objects created
  by \<^verbatim>\<open>_setupHooks\<close>. \<open>before_tab\<close> and \<open>after_tab\<close> hold the arrays that are their own
  properties (function references, in registration order); \<open>before_obj\<close> and \<open>after_obj\<close>
  say whether the object exists at all, which matters for a name without an array: on an
  existing object such a name is looked up in \<^verbatim>\<open>Object.prototype\<close>.
\<close>

record host =
  before_tab :: "string \<rightharpoonup> nat list"
  after_tab :: "string \<rightharpoonup> nat list"
  methods :: "string \<Rightarrow> meth"
  before_obj :: bool
  after_obj :: bool

text \<open>
  The properties that every plain object inherits, each with the \<^verbatim>\<open>length\<close> of its
  value: eleven functions, and \<^verbatim>\<open>__proto__\<close>, whose value is \<^verbatim>\<open>Object.prototype\<close>
  itself and has no \<^verbatim>\<open>length\<close>. All of these values are truthy, none is an array, and
  none has a property at a numeric index.
\<close>

definition object_prototype :: "string \<rightharpoonup> nat option" where
  "object_prototype =
     [''constructor'' \<mapsto> Some 1, ''toString'' \<mapsto> Some 0, ''toLocaleString'' \<mapsto> Some 0,
      ''valueOf'' \<mapsto> Some 0, ''hasOwnProperty'' \<mapsto> Some 1, ''isPrototypeOf'' \<mapsto> Some 1,
      ''propertyIsEnumerable'' \<mapsto> Some 1, ''__defineGetter__'' \<mapsto> Some 2,
      ''__defineSetter__'' \<mapsto> Some 2, ''__lookupGetter__'' \<mapsto> Some 1,
      ''__lookupSetter__'' \<mapsto> Some 1, ''__proto__'' \<mapsto> None]"

text \<open>
  What \<^verbatim>\<open>this._before[name]\<close> evaluates to: the array, an inherited value, or
  \<^verbatim>\<open>undefined\<close>; reading a property of a table that does not exist throws.
\<close>

datatype entry = NoEntry | Inherited "nat option" | HookList "nat list"

definition lookup :: "bool \<Rightarrow> (string \<rightharpoonup> nat list) \<Rightarrow> string \<Rightarrow> exn + entry" where
  "lookup made tab name =
     (case tab name of
        Some hs \<Rightarrow> Inr (HookList hs)
      | None \<Rightarrow>
          if made
          then Inr (case object_prototype name of None \<Rightarrow> NoEntry | Some l \<Rightarrow> Inherited l)
          else Inl TypeError)"

definition getBeforeHooks :: "host \<Rightarrow> string \<Rightarrow> exn + entry" where
  "getBeforeHooks h name = lookup (before_obj h) (before_tab h) name"

definition getAfterHooks :: "host \<Rightarrow> string \<Rightarrow> exn + entry" where
  "getAfterHooks h name = lookup (after_obj h) (after_tab h) name"

text \<open>What one call of a hooked method does, in order.\<close>

datatype event =
    BeforeRan nat nat "val list"
  | TargetRan nat "val list"
  | AfterRan nat nat "val list"
  | CallbackRan val "val list"
  | Threw exn

section \<open>Arrays\<close>

text \<open>
  \<^verbatim>\<open>xs[i]\<close> and \<^verbatim>\<open>xs[i] = v\<close> on a JavaScript array: a read out of range is
  \<^verbatim>\<open>undefined\<close>, a write past the end extends the array with holes, and a write at
  index \<open>-1\<close> sets a property and leaves the elements alone.
\<close>

definition js_get :: "val list \<Rightarrow> int \<Rightarrow> val" where
  "js_get xs i = (if 0 \<le> i \<and> nat i < length xs then xs ! nat i else JUndefined)"

definition js_set :: "val list \<Rightarrow> int \<Rightarrow> val \<Rightarrow> val list" where
  "js_set xs i v =
     (if i < 0 then xs
      else if nat i < length xs then xs[nat i := v]
      else xs @ replicate (nat i - length xs) JUndefined @ [v])"

definition lastIndex :: "val list \<Rightarrow> int" where
  "lastIndex xs = int (length xs) - 1"

text \<open>\<^verbatim>\<open>f.call(this, ...)\<close> and \<^verbatim>\<open>f.apply(this, args)\<close> on the caller's callback.\<close>

definition call_value :: "val \<Rightarrow> val list \<Rightarrow> event list" where
  "call_value f args = (if isFunction f then [CallbackRan f args] else [Threw TypeError])"

section \<open>The chain engine\<close>

text \<open>
  The first parameter of a continuation, and the choice both continuations make between
  the arguments they were called with (minus the first) and the vector they captured.
\<close>

definition firstArg :: "val list \<Rightarrow> val" where
  "firstArg as = (case as of [] \<Rightarrow> JUndefined | a # _ \<Rightarrow> a)"

definition callbackArguments :: "val list \<Rightarrow> val list \<Rightarrow> val list" where
  "callbackArguments as captured =
     (let e = firstArg as in
      if ((e = JNull \<or> e = JUndefined) \<and> length as > 1) \<or> (e \<noteq> JNull \<and> e \<noteq> JUndefined)
      then tl as
      else captured)"

text \<open>
  The chain at counter \<open>k\<close> on a name without an array. Without the table, or without an
  entry for the name, \<^verbatim>\<open>this._getBeforeHooks(name).length\<close> throws. On an inherited value
  the counter is compared with that value's \<^verbatim>\<open>length\<close>: below it the chain reads the
  element at the counter, which is \<^verbatim>\<open>undefined\<close>, and throws on its \<^verbatim>\<open>length\<close>;
  otherwise, and when there is no \<^verbatim>\<open>length\<close> to compare with, it goes on as it does at
  the end of a list.
\<close>

definition no_list :: "bool \<Rightarrow> string \<Rightarrow> nat \<Rightarrow> event list \<Rightarrow> event list" where
  "no_list made name k at_end =
     (case lookup made Map.empty name of
        Inl e \<Rightarrow> [Threw e]
      | Inr NoEntry \<Rightarrow> [Threw TypeError]
      | Inr (Inherited None) \<Rightarrow> at_end
      | Inr (Inherited (Some n)) \<Rightarrow> if k < n then [Threw TypeError] else at_end
      | Inr (HookList hs) \<Rightarrow> [Threw TypeError])"

text \<open>The lengths of the two lists, which bound the recursion of the chains.\<close>

definition after_length :: "host \<Rightarrow> string \<Rightarrow> nat" where
  "after_length h name = (case after_tab h name of None \<Rightarrow> 0 | Some hs \<Rightarrow> length hs)"

definition before_length :: "host \<Rightarrow> string \<Rightarrow> nat" where
  "before_length h name = (case before_tab h name of None \<Rightarrow> 0 | Some hs \<Rightarrow> length hs)"

function runAfterHook ::
  "fenv \<Rightarrow> host \<Rightarrow> string \<Rightarrow> val \<Rightarrow> nat \<Rightarrow> val \<Rightarrow> val list \<Rightarrow> event list" where
  "runAfterHook F h name error j originalCallback originalCallbackArguments =
     (if \<not> isFunction originalCallback then [Threw AssertionError]
      else if instanceofError error then call_value originalCallback [error]
      else case after_tab h name of
        None \<Rightarrow> no_list (after_obj h) name j (call_value originalCallback originalCallbackArguments)
      | Some hs \<Rightarrow>
          if j < length hs then
            (if arity (F (hs ! j)) = 0
             then [Threw (HookError ''Your after must have a next argument -- e.g., function(next, ...)'')]
             else AfterRan j (hs ! j) (originalCallbackArguments @ [AfterNext (j + 1)]) #
               (case body (F (hs ! j)) (originalCallbackArguments @ [AfterNext (j + 1)]) of
                  NoCall \<Rightarrow> []
                | CallNext as \<Rightarrow>
                    runAfterHook F h name error (j + 1) originalCallback
                      (callbackArguments as originalCallbackArguments)))
          else call_value originalCallback originalCallbackArguments)"
  by pat_completeness auto
termination
  by (relation "measure (\<lambda>(F, h, name, error, j, cb, args). after_length h name - j)")
     (auto simp: after_length_def)

declare runAfterHook.simps [simp del]

text \<open>
  \<^verbatim>\<open>runOriginalFunction\<close>. The original function is given by what a call of it does:
  the events it causes and whether it calls the callback placed in its call vector.
\<close>

definition runOriginalFunction ::
  "fenv \<Rightarrow> host \<Rightarrow> string \<Rightarrow> (val list \<Rightarrow> event list \<times> reply) \<Rightarrow> val list \<Rightarrow> val list \<Rightarrow> event list" where
  "runOriginalFunction F h name originalFunction originalArguments inArgs =
     (let originalFunctionArguments = js_set inArgs (lastIndex originalArguments) TargetCallback;
          (evs, r) = originalFunction originalFunctionArguments
      in evs @
         (case r of
            NoCall \<Rightarrow> []
          | CallNext as \<Rightarrow>
              runAfterHook F h name (firstArg as) 0
                (js_get originalArguments (lastIndex originalArguments))
                (if length as > 0 then as else inArgs)))"

function runBeforeHook ::
  "fenv \<Rightarrow> host \<Rightarrow> string \<Rightarrow> (val list \<Rightarrow> event list \<times> reply) \<Rightarrow> val \<Rightarrow> nat \<Rightarrow> val list \<Rightarrow> val list
     \<Rightarrow> event list" where
  "runBeforeHook F h name originalFunction error i originalArguments inArgs =
     (if instanceofError error
      then call_value (js_get originalArguments (lastIndex originalArguments)) [error]
      else case before_tab h name of
        None \<Rightarrow>
          no_list (before_obj h) name i
            (runOriginalFunction F h name originalFunction originalArguments inArgs)
      | Some hs \<Rightarrow>
          if i < length hs then
            (if arity (F (hs ! i)) = 0
             then [Threw (HookError ''Your before must have a next argument -- e.g., function(next, ...)'')]
             else BeforeRan i (hs ! i)
                    (js_set originalArguments (lastIndex originalArguments) (BeforeNext (i + 1))) #
               (case body (F (hs ! i))
                       (js_set originalArguments (lastIndex originalArguments) (BeforeNext (i + 1))) of
                  NoCall \<Rightarrow> []
                | CallNext as \<Rightarrow>
                    runBeforeHook F h name originalFunction (firstArg as) (i + 1) originalArguments
                      (callbackArguments as inArgs)))
          else runOriginalFunction F h name originalFunction originalArguments inArgs)"
  by pat_completeness auto
termination
  by (relation "measure (\<lambda>(F, h, name, ofn, error, i, orig, args). before_length h name - i)")
     (auto simp: before_length_def)

declare runBeforeHook.simps [simp del]

text \<open>
  The function that \<^verbatim>\<open>_hook\<close> installs in place of the method. A failed
  \<^verbatim>\<open>console.assert\<close> is the \<open>AssertionError\<close> that Node.js throws up to version 9;
  in a call whose last argument is a function no assertion of the engine fails. The
  assertions on \<^verbatim>\<open>_.isNumber\<close> and \<^verbatim>\<open>_.isString\<close> hold by typing, and
  \<^verbatim>\<open>console.log\<close> is left out.
\<close>

definition wrapper ::
  "fenv \<Rightarrow> host \<Rightarrow> string \<Rightarrow> (val list \<Rightarrow> event list \<times> reply) \<Rightarrow> val list \<Rightarrow> event list" where
  "wrapper F h name originalFunction arguments =
     (if \<not> isFunction (js_get arguments (lastIndex arguments)) then [Threw AssertionError]
      else runBeforeHook F h name originalFunction JNull 0 arguments arguments)"

text \<open>
  Calling whatever is bound to the method name. A plain function runs its body, and the
  callback it calls is the last argument of the call; a wrapper runs the chain around the
  function it captured. A wrapper that sits inside another one ends by calling the
  callback it was handed, which is the outer wrapper's \<open>TargetCallback\<close>: that call is
  its reply to the outer chain.
\<close>

definition split_callback :: "event list \<Rightarrow> event list \<times> reply" where
  "split_callback tr =
     (if tr = [] then (tr, NoCall)
      else case last tr of
             CallbackRan TargetCallback as \<Rightarrow> (butlast tr, CallNext as)
           | _ \<Rightarrow> (tr, NoCall))"

fun call_method :: "fenv \<Rightarrow> host \<Rightarrow> meth \<Rightarrow> val list \<Rightarrow> event list \<times> reply" where
  "call_method F h Absent args = ([Threw TypeError], NoCall)"
| "call_method F h (Target t) args = ([TargetRan t args], body (F t) args)"
| "call_method F h (Wrapper name m) args =
     split_callback (wrapper F h name (\<lambda>u. call_method F h m u) args)"

definition invoke :: "fenv \<Rightarrow> host \<Rightarrow> string \<Rightarrow> val list \<Rightarrow> event list" where
  "invoke F h name args =
     (case methods h name of
        Absent \<Rightarrow> [Threw TypeError]
      | Target t \<Rightarrow>
          TargetRan t args #
            (case body (F t) args of
               NoCall \<Rightarrow> []
             | CallNext as \<Rightarrow> call_value (js_get args (lastIndex args)) as)
      | Wrapper n m \<Rightarrow> wrapper F h n (\<lambda>u. call_method F h m u) args)"

section \<open>Installation and registration\<close>

text \<open>
  \<^verbatim>\<open>_setupHooks\<close> creates the two tables if need be and gives the name an empty array in
  each, unless \<^verbatim>\<open>this._before[functionName]\<close> is already truthy: an array is kept, and
  for a name found in \<^verbatim>\<open>Object.prototype\<close> the inherited value is written back, which
  leaves every later lookup as it was.
\<close>

definition setupHooks :: "host \<Rightarrow> string \<Rightarrow> host" where
  "setupHooks h functionName =
     h\<lparr>before_obj := True,
       after_obj := True,
       before_tab :=
         (case lookup True (before_tab h) functionName of
            Inr NoEntry \<Rightarrow> (before_tab h)(functionName \<mapsto> [])
          | _ \<Rightarrow> before_tab h),
       after_tab :=
         (case lookup True (after_tab h) functionName of
            Inr NoEntry \<Rightarrow> (after_tab h)(functionName \<mapsto> [])
          | _ \<Rightarrow> after_tab h)\<rparr>"

definition isHookedAlready :: "host \<Rightarrow> string \<Rightarrow> bool" where
  "isHookedAlready h functionName =
     (case getBeforeHooks h functionName of
        Inl e \<Rightarrow> False
      | Inr NoEntry \<Rightarrow> False
      | Inr (Inherited l) \<Rightarrow> True
      | Inr (HookList hs) \<Rightarrow> True)"

definition hook :: "host \<Rightarrow> string \<Rightarrow> host" where
  "hook h functionName =
     (if isHookedAlready h functionName then h
      else let h' = setupHooks h functionName
           in h'\<lparr>methods := (methods h')(functionName := Wrapper functionName (methods h' functionName))\<rparr>)"

text \<open>
  \<^verbatim>\<open>before\<close> and \<^verbatim>\<open>after\<close> return the host as the call leaves it and the exception, if
  one is thrown: \<^verbatim>\<open>push\<close> exists on an array only, and \<^verbatim>\<open>_hook\<close> has run by then.
\<close>

definition before :: "host \<Rightarrow> string \<Rightarrow> nat \<Rightarrow> host \<times> exn option" where
  "before h functionName fn =
     (let h' = hook h functionName
      in case getBeforeHooks h' functionName of
           Inr (HookList xs) \<Rightarrow>
             (h'\<lparr>before_tab := (before_tab h')(functionName \<mapsto> xs @ [fn])\<rparr>, None)
         | _ \<Rightarrow> (h', Some TypeError))"

definition after :: "host \<Rightarrow> string \<Rightarrow> nat \<Rightarrow> host \<times> exn option" where
  "after h functionName fn =
     (let h' = hook h functionName
      in case getAfterHooks h' functionName of
           Inr (HookList xs) \<Rightarrow>
             (h'\<lparr>after_tab := (after_tab h')(functionName \<mapsto> xs @ [fn])\<rparr>, None)
         | _ \<Rightarrow> (h', Some TypeError))"

text \<open>
  \<^verbatim>\<open>removeAfter\<close> and \<^verbatim>\<open>removeBefore\<close>: \<open>None\<close> is the call with the name alone
  (\<^verbatim>\<open>arguments.length === 1\<close>), \<open>Some fn\<close> the call that names a function. On a name
  without an array both throw, before anything is changed, with one exception: the
  assignment \<^verbatim>\<open>length = 0\<close> on an inherited value changes nothing that a lookup in the
  tables can see and does not throw (the file is not in strict mode).
\<close>

definition remove_no_list :: "host \<Rightarrow> exn + entry \<Rightarrow> nat option \<Rightarrow> exn + host" where
  "remove_no_list h looked fnToRemove =
     (case looked of
        Inr (Inherited l) \<Rightarrow> (case fnToRemove of None \<Rightarrow> Inr h | Some fn \<Rightarrow> Inl TypeError)
      | _ \<Rightarrow> Inl TypeError)"

definition removeAfter :: "host \<Rightarrow> string \<Rightarrow> nat option \<Rightarrow> exn + host" where
  "removeAfter h functionName fnToRemove =
     (case after_tab h functionName of
        None \<Rightarrow> remove_no_list h (getAfterHooks h functionName) fnToRemove
      | Some xs \<Rightarrow>
          (case fnToRemove of
             None \<Rightarrow> Inr (h\<lparr>after_tab := (after_tab h)(functionName \<mapsto> [])\<rparr>)
           | Some fn \<Rightarrow>
               Inr (h\<lparr>after_tab := (after_tab h)(functionName \<mapsto>
                      filter (\<lambda>currFn. currFn \<noteq> fn) xs)\<rparr>)))"

definition removeBefore :: "host \<Rightarrow> string \<Rightarrow> nat option \<Rightarrow> exn + host" where
  "removeBefore h functionName fnToRemove =
     (case before_tab h functionName of
        None \<Rightarrow> remove_no_list h (getBeforeHooks h functionName) fnToRemove
      | Some xs \<Rightarrow>
          (case fnToRemove of
             None \<Rightarrow> Inr (h\<lparr>before_tab := (before_tab h)(functionName \<mapsto> [])\<rparr>)
           | Some fn \<Rightarrow>
               Inr (h\<lparr>before_tab := (before_tab h)(functionName \<mapsto>
                      filter (\<lambda>currFn. currFn \<noteq> fn) xs)\<rparr>)))"






section \<open>Reading a trace\<close>

fun is_callback :: "event \<Rightarrow> bool" where
  "is_callback (CallbackRan f as) = True"
| "is_callback e = False"

fun is_threw :: "event \<Rightarrow> bool" where
  "is_threw (Threw x) = True"
| "is_threw e = False"

text \<open>An event without the argument vector: which function ran, and at which index.\<close>

datatype step = BeforeStep nat nat | TargetStep nat | AfterStep nat nat | CallbackStep val | ThrewStep exn

fun step_of :: "event \<Rightarrow> step" where
  "step_of (BeforeRan i f v) = BeforeStep i f"
| "step_of (TargetRan t v) = TargetStep t"
| "step_of (AfterRan j f v) = AfterStep j f"
| "step_of (CallbackRan c as) = CallbackStep c"
| "step_of (Threw x) = ThrewStep x"

text \<open>
  The before-hook at index \<open>k\<close>, from index \<open>i\<close> on, run on the original arguments with
  their last slot replaced; the after-hook at index \<open>k\<close>, from \<open>j\<close> on, run on some
  vector with the continuation appended; and the ways a chain can end.
\<close>

definition before_event :: "nat list \<Rightarrow> val list \<Rightarrow> nat \<Rightarrow> event \<Rightarrow> bool" where
  "before_event bs orig i ev =
     (\<exists>k. ev = BeforeRan k (bs ! k) (js_set orig (lastIndex orig) (BeforeNext (k + 1))) \<and>
          i \<le> k \<and> k < length bs)"

definition after_event :: "nat list \<Rightarrow> nat \<Rightarrow> event \<Rightarrow> bool" where
  "after_event afs j ev =
     (\<exists>k u. ev = AfterRan k (afs ! k) (u @ [AfterNext (k + 1)]) \<and> j \<le> k \<and> k < length afs)"

definition final_part :: "val \<Rightarrow> event list \<Rightarrow> bool" where
  "final_part cb fin = (fin = [] \<or> (\<exists>as. fin = [CallbackRan cb as]) \<or> (\<exists>x. fin = [Threw x]))"

text \<open>The plain function \<open>t\<close> as an original function.\<close>

definition target :: "fenv \<Rightarrow> nat \<Rightarrow> val list \<Rightarrow> event list \<times> reply" where
  "target F t = (\<lambda>u. ([TargetRan t u], body (F t) u))"

definition quiet :: "event \<Rightarrow> bool" where
  "quiet ev = (\<not> is_callback ev \<and> \<not> is_threw ev)"

definition before_end ::
  "fenv \<Rightarrow> host \<Rightarrow> string \<Rightarrow> (val list \<Rightarrow> event list \<times> reply) \<Rightarrow> val list \<Rightarrow> event list \<Rightarrow> bool" where
  "before_end F h name ofn orig fin =
     (fin = [] \<or> (\<exists>x. fin = [Threw x]) \<or>
      (\<exists>err. instanceofError err \<and> fin = call_value (js_get orig (lastIndex orig)) [err]) \<or>
      (\<exists>cur. fin = runOriginalFunction F h name ofn orig cur))"

section \<open>A concrete host\<close>

text \<open>
  The functions of the repository's test, and a few more. Function 0 is
  \<^verbatim>\<open>save(foo, bar, callback)\<close>, function 1 the before-hook
  \<^verbatim>\<open>validate(foo, bar, next)\<close> and function 2 the after-hook
  \<^verbatim>\<open>createJob(error, foo, bar, next)\<close>. Function 3 is an after-hook
  \<^verbatim>\<open>function(error, foo, bar, next)\<close> that reports an error, function 4 a hook that
  declares no parameter, function 5 a before-hook \<^verbatim>\<open>function(foo, bar, next)\<close> that
  calls \<^verbatim>\<open>next()\<close>, function 6 a target \<^verbatim>\<open>function(foo, bar, callback)\<close> that calls
  back with a string, function 7 a before-hook \<^verbatim>\<open>function(foo, bar, next)\<close> that calls
  \<^verbatim>\<open>next(null, 10, 20)\<close>, and function 8 a hook \<^verbatim>\<open>function(next)\<close> that calls the
  last of its arguments, however many there are. A function that does not find its
  continuation where it expects it does not call it.
\<close>

definition increment :: "val \<Rightarrow> val" where
  "increment v = (case v of JNum n \<Rightarrow> JNum (n + 1) | _ \<Rightarrow> JUndefined)"

definition demo_F :: fenv where
  "demo_F f =
     (if f = 0 then
        \<lparr>arity = 3, body = (\<lambda>v. case v of
            [foo, bar, callback] \<Rightarrow>
              if foo = JStr ''foo'' then CallNext [JNull, JStr ''bar'', increment bar]
              else CallNext [JError '':('']
          | _ \<Rightarrow> NoCall)\<rparr>
      else if f = 1 then
        \<lparr>arity = 3, body = (\<lambda>v. case v of
            [foo, bar, next] \<Rightarrow>
              if foo = JStr ''foo'' then CallNext [JNull, foo, increment bar]
              else CallNext [JError ''Invalid'']
          | _ \<Rightarrow> NoCall)\<rparr>
      else if f = 2 then
        \<lparr>arity = 4, body = (\<lambda>v. case v of [error, foo, bar, next] \<Rightarrow> CallNext [] | _ \<Rightarrow> NoCall)\<rparr>
      else if f = 3 then
        \<lparr>arity = 4, body = (\<lambda>v. case v of
            [error, foo, bar, next] \<Rightarrow> CallNext [JError ''boom'']
          | _ \<Rightarrow> NoCall)\<rparr>
      else if f = 4 then \<lparr>arity = 0, body = (\<lambda>v. CallNext [])\<rparr>
      else if f = 5 then
        \<lparr>arity = 3, body = (\<lambda>v. case v of [foo, bar, next] \<Rightarrow> CallNext [] | _ \<Rightarrow> NoCall)\<rparr>
      else if f = 6 then
        \<lparr>arity = 3, body = (\<lambda>v. case v of
            [foo, bar, callback] \<Rightarrow> CallNext [JStr ''failed'']
          | _ \<Rightarrow> NoCall)\<rparr>
      else if f = 7 then
        \<lparr>arity = 3, body = (\<lambda>v. case v of
            [foo, bar, next] \<Rightarrow> CallNext [JNull, JNum 10, JNum 20]
          | _ \<Rightarrow> NoCall)\<rparr>
      else \<lparr>arity = 1, body = (\<lambda>v. CallNext [])\<rparr>)"

definition demo_host :: "nat \<Rightarrow> nat list \<Rightarrow> nat list \<Rightarrow> host" where
  "demo_host t bs afs =
     \<lparr>before_tab = [''save'' \<mapsto> bs], after_tab = [''save'' \<mapsto> afs],
      methods = (\<lambda>n. if n = ''save'' then Wrapper ''save'' (Target t) else Absent),
      before_obj = True, after_obj = True\<rparr>"

section \<open>Well-behaved runs\<close>

text \<open>
  A function declares the continuation parameter. In a trace, a function that ran has
  called its continuation (or callback), and has done so without reporting an error.
\<close>

definition declares_next :: "fenv \<Rightarrow> nat \<Rightarrow> bool" where
  "declares_next F g = (arity (F g) \<noteq> 0)"

fun replied :: "fenv \<Rightarrow> event \<Rightarrow> bool" where
  "replied F (BeforeRan i f v) = (body (F f) v \<noteq> NoCall)"
| "replied F (TargetRan t v) = (body (F t) v \<noteq> NoCall)"
| "replied F (AfterRan j f v) = (body (F f) v \<noteq> NoCall)"
| "replied F ev = True"

definition no_error :: "reply \<Rightarrow> bool" where
  "no_error r = (case r of NoCall \<Rightarrow> False | CallNext as \<Rightarrow> \<not> instanceofError (firstArg as))"

fun replied_ok :: "fenv \<Rightarrow> event \<Rightarrow> bool" where
  "replied_ok F (BeforeRan i f v) = no_error (body (F f) v)"
| "replied_ok F (TargetRan t v) = no_error (body (F t) v)"
| "replied_ok F (AfterRan j f v) = no_error (body (F f) v)"
| "replied_ok F ev = True"

section \<open>Registration calls\<close>







section \<open>The arguments in force\<close>

text \<open>
  The argument lists that the before-hooks of a trace called their continuations with, in
  order; and, following the words of the specification, the leading arguments in force
  after them: those of the most recent call that passed any, or the original leading
  arguments when every call was \<^verbatim>\<open>next()\<close>.
\<close>

fun before_replies :: "fenv \<Rightarrow> event list \<Rightarrow> val list list" where
  "before_replies F [] = []"
| "before_replies F (BeforeRan i f v # tr) =
     (case body (F f) v of
        CallNext as \<Rightarrow> as # before_replies F tr
      | NoCall \<Rightarrow> before_replies F tr)"
| "before_replies F (ev # tr) = before_replies F tr"

definition leading_in_force :: "val list \<Rightarrow> val list list \<Rightarrow> val list" where
  "leading_in_force args replies =
     (case filter (\<lambda>as. as \<noteq> []) replies of
        [] \<Rightarrow> butlast args
      | os \<Rightarrow> tl (last os))"

text \<open>
  The two ways of calling the continuation that the claim is about: with no arguments, or
  with \<^verbatim>\<open>null\<close> and as many values as the call had leading arguments.
\<close>

definition passes_or_overrides :: "val list \<Rightarrow> val list \<Rightarrow> bool" where
  "passes_or_overrides args as =
     (case as of
        [] \<Rightarrow> True
      | e # rest \<Rightarrow> e = JNull \<and> rest \<noteq> [] \<and> length rest + 1 = length args)"



section \<open>The shape of a trace\<close>


lemma after_event_mono: "after_event afs (Suc j) ev \<Longrightarrow> after_event afs j ev"
  by (auto simp: after_event_def)

lemma before_event_mono: "before_event bs orig (Suc i) ev \<Longrightarrow> before_event bs orig i ev"
  by (auto simp: before_event_def)

lemma final_call_value: "final_part cb (call_value cb as)"
  by (simp add: final_part_def call_value_def)

lemma after_shape:
  assumes "after_tab h name = Some afs"
  shows "\<exists>pre fin. runAfterHook F h name e j cb args = pre @ fin \<and>
           (\<forall>ev\<in>set pre. after_event afs j ev) \<and> final_part cb fin"
  using assms
proof (induction F h name e j cb args rule: runAfterHook.induct)
  case (1 F h name error j cb args)
  let ?R = "runAfterHook F h name error j cb args"
  let ?v = "args @ [AfterNext (j + 1)]"
  have stop: "final_part cb ?R \<Longrightarrow> ?case"
  proof -
    assume f: "final_part cb ?R"
    have "?R = [] @ ?R \<and> (\<forall>ev\<in>set []. after_event afs j ev) \<and> final_part cb ?R" using f by simp
    then show ?case by blast
  qed
  show ?case
  proof (cases "isFunction cb \<and> \<not> instanceofError error \<and> j < length afs \<and> arity (F (afs ! j)) \<noteq> 0")
    case False
    with "1.prems" have "final_part cb ?R"
      by (subst runAfterHook.simps) (auto simp: final_part_def call_value_def)
    then show ?thesis by (rule stop)
  next
    case True
    have hd: "after_event afs j (AfterRan j (afs ! j) ?v)"
      using True by (auto simp: after_event_def)
    show ?thesis
    proof (cases "body (F (afs ! j)) ?v")
      case NoCall
      with True "1.prems" have R: "?R = [AfterRan j (afs ! j) ?v] @ []"
        by (subst runAfterHook.simps) simp
      have "?R = [AfterRan j (afs ! j) ?v] @ [] \<and> (\<forall>ev\<in>set [AfterRan j (afs ! j) ?v]. after_event afs j ev) \<and> final_part cb []"
        using R hd by (simp add: final_part_def)
      then show ?thesis by blast
    next
      case (CallNext as)
      let ?R' = "runAfterHook F h name error (j + 1) cb (callbackArguments as args)"
      from True "1.prems" CallNext have R: "?R = AfterRan j (afs ! j) ?v # ?R'"
        by (subst runAfterHook.simps) simp
      from "1.IH"[of afs as] True "1.prems" CallNext
      obtain pre fin where IH: "?R' = pre @ fin" "\<forall>ev\<in>set pre. after_event afs (j + 1) ev" "final_part cb fin"
        by auto
      have "?R = (AfterRan j (afs ! j) ?v # pre) @ fin" using R IH(1) by simp
      moreover have "\<forall>ev\<in>set (AfterRan j (afs ! j) ?v # pre). after_event afs j ev"
        using hd IH(2) after_event_mono by auto
      ultimately show ?thesis using IH(3) by blast
    qed
  qed
qed

lemma no_list_cases: "no_list made name k at_end = [Threw TypeError] \<or> no_list made name k at_end = at_end"
  by (auto simp: no_list_def lookup_def split: option.splits)

lemma after_shape_None:
  assumes "after_tab h name = None"
  shows "final_part cb (runAfterHook F h name e j cb args)"
proof -
  have "runAfterHook F h name e j cb args = [Threw AssertionError] \<or>
        runAfterHook F h name e j cb args = call_value cb [e] \<or>
        runAfterHook F h name e j cb args = no_list (after_obj h) name j (call_value cb args)"
    using assms by (simp add: runAfterHook.simps[of F h name e j cb args])
  moreover have "final_part cb [Threw AssertionError]" "final_part cb [Threw TypeError]"
    by (simp_all add: final_part_def)
  moreover note final_call_value[of cb "[e]"] final_call_value[of cb args]
    no_list_cases[of "after_obj h" name j "call_value cb args"]
  ultimately show ?thesis by metis
qed

lemma before_shape:
  assumes "before_tab h name = Some bs"
  shows "\<exists>pre fin. runBeforeHook F h name ofn e i orig cur = pre @ fin \<and>
           (\<forall>ev\<in>set pre. before_event bs orig i ev) \<and> before_end F h name ofn orig fin"
  using assms
proof (induction F h name ofn e i orig cur rule: runBeforeHook.induct)
  case (1 F h name ofn error i orig cur)
  let ?R = "runBeforeHook F h name ofn error i orig cur"
  let ?v = "js_set orig (lastIndex orig) (BeforeNext (i + 1))"
  have stop: "before_end F h name ofn orig ?R \<Longrightarrow> ?case"
  proof -
    assume f: "before_end F h name ofn orig ?R"
    have "?R = [] @ ?R \<and> (\<forall>ev\<in>set []. before_event bs orig i ev) \<and> before_end F h name ofn orig ?R"
      using f by simp
    then show ?case by blast
  qed
  show ?case
  proof (cases "\<not> instanceofError error \<and> i < length bs \<and> arity (F (bs ! i)) \<noteq> 0")
    case False
    with "1.prems" have "before_end F h name ofn orig ?R"
      by (subst runBeforeHook.simps) (auto simp: before_end_def)
    then show ?thesis by (rule stop)
  next
    case True
    have hd: "before_event bs orig i (BeforeRan i (bs ! i) ?v)"
      using True by (auto simp: before_event_def)
    show ?thesis
    proof (cases "body (F (bs ! i)) ?v")
      case NoCall
      with True "1.prems" have R: "?R = [BeforeRan i (bs ! i) ?v] @ []"
        by (subst runBeforeHook.simps) simp
      have "?R = [BeforeRan i (bs ! i) ?v] @ [] \<and> (\<forall>ev\<in>set [BeforeRan i (bs ! i) ?v]. before_event bs orig i ev)
           \<and> before_end F h name ofn orig []"
        using R hd by (simp add: before_end_def)
      then show ?thesis by blast
    next
      case (CallNext as)
      let ?R' = "runBeforeHook F h name ofn (firstArg as) (i + 1) orig (callbackArguments as cur)"
      from True "1.prems" CallNext have R: "?R = BeforeRan i (bs ! i) ?v # ?R'"
        by (subst runBeforeHook.simps) simp
      from "1.IH"[of bs as] True "1.prems" CallNext
      obtain pre fin where IH: "?R' = pre @ fin" "\<forall>ev\<in>set pre. before_event bs orig (i + 1) ev"
         "before_end F h name ofn orig fin"
        by auto
      have "?R = (BeforeRan i (bs ! i) ?v # pre) @ fin" using R IH(1) by simp
      moreover have "\<forall>ev\<in>set (BeforeRan i (bs ! i) ?v # pre). before_event bs orig i ev"
        using hd IH(2) before_event_mono by auto
      ultimately show ?thesis using IH(3) by blast
    qed
  qed
qed


lemma before_shape_None:
  assumes "before_tab h name = None"
  shows "before_end F h name ofn orig (runBeforeHook F h name ofn e i orig cur)"
proof (cases "instanceofError e")
  case True
  then have "runBeforeHook F h name ofn e i orig cur = call_value (js_get orig (lastIndex orig)) [e]"
    by (subst runBeforeHook.simps) simp
  then show ?thesis using True by (auto simp: before_end_def)
next
  case False
  then have "runBeforeHook F h name ofn e i orig cur =
      no_list (before_obj h) name i (runOriginalFunction F h name ofn orig cur)"
    using assms by (subst runBeforeHook.simps) simp
  then show ?thesis
    using no_list_cases[of "before_obj h" name i "runOriginalFunction F h name ofn orig cur"]
    by (auto simp: before_end_def)
qed

lemma before_shape_any:
  "\<exists>pre fin. runBeforeHook F h name ofn e i orig cur = pre @ fin \<and>
      (\<forall>ev\<in>set pre. \<exists>k g u. ev = BeforeRan k g u) \<and> before_end F h name ofn orig fin"
proof (cases "before_tab h name")
  case None
  let ?R = "runBeforeHook F h name ofn e i orig cur"
  have "?R = [] @ ?R \<and> (\<forall>ev\<in>set []. \<exists>k g u. ev = BeforeRan k g u) \<and> before_end F h name ofn orig ?R"
    using before_shape_None[OF None, of F ofn orig e i cur] by simp
  then show ?thesis by blast
next
  case (Some bs)
  from before_shape[OF Some, of F ofn e i orig cur] obtain pre fin where
    B: "runBeforeHook F h name ofn e i orig cur = pre @ fin"
       "\<forall>ev\<in>set pre. before_event bs orig i ev" "before_end F h name ofn orig fin"
    by blast
  have "\<forall>ev\<in>set pre. \<exists>k g u. ev = BeforeRan k g u" using B(2) by (auto simp: before_event_def)
  then show ?thesis using B(1,3) by blast
qed

lemma invoke_hooked:
  "methods h name = Wrapper n (Target t) \<Longrightarrow> invoke F h name args = wrapper F h n (target F t) args"
proof -
  have "call_method F h (Target t) = target F t" by (rule ext) (simp add: target_def)
  then show "methods h name = Wrapper n (Target t) \<Longrightarrow> invoke F h name args = wrapper F h n (target F t) args"
    by (simp add: invoke_def)
qed

lemma runOriginalFunction_target:
  "runOriginalFunction F h name (target F t) orig cur =
     TargetRan t (js_set cur (lastIndex orig) TargetCallback) #
       (case body (F t) (js_set cur (lastIndex orig) TargetCallback) of
          NoCall \<Rightarrow> []
        | CallNext as \<Rightarrow>
            runAfterHook F h name (firstArg as) 0 (js_get orig (lastIndex orig))
              (if length as > 0 then as else cur))"
  by (simp add: runOriginalFunction_def target_def Let_def)

lemma quiet_after: "after_event afs j ev \<Longrightarrow> quiet ev"
  by (auto simp: after_event_def quiet_def)

lemma quiet_before: "before_event bs orig i ev \<Longrightarrow> quiet ev"
  by (auto simp: before_event_def quiet_def)

lemma after_quiet_shape:
  "\<exists>pre fin. runAfterHook F h name e j cb args = pre @ fin \<and> (\<forall>ev\<in>set pre. quiet ev) \<and> final_part cb fin"
proof (cases "after_tab h name")
  case None
  from after_shape_None[OF this, of cb F e j args]
  have "runAfterHook F h name e j cb args = [] @ runAfterHook F h name e j cb args \<and>
        (\<forall>ev\<in>set []. quiet ev) \<and> final_part cb (runAfterHook F h name e j cb args)" by simp
  then show ?thesis by blast
next
  case (Some afs)
  from after_shape[OF this, of F e j cb args] obtain pre fin where
    "runAfterHook F h name e j cb args = pre @ fin" "\<forall>ev\<in>set pre. after_event afs j ev" "final_part cb fin"
    by blast
  then show ?thesis using quiet_after by blast
qed

lemma original_quiet_shape:
  "\<exists>pre fin. runOriginalFunction F h name (target F t) orig cur = pre @ fin \<and>
      (\<forall>ev\<in>set pre. quiet ev) \<and> final_part (js_get orig (lastIndex orig)) fin"
proof (cases "body (F t) (js_set cur (lastIndex orig) TargetCallback)")
  case NoCall
  let ?T = "TargetRan t (js_set cur (lastIndex orig) TargetCallback)"
  have "runOriginalFunction F h name (target F t) orig cur = [?T] @ [] \<and>
      (\<forall>ev\<in>set [?T]. quiet ev) \<and> final_part (js_get orig (lastIndex orig)) []"
    using NoCall by (simp add: runOriginalFunction_target quiet_def final_part_def)
  then show ?thesis by blast
next
  case (CallNext as)
  let ?T = "TargetRan t (js_set cur (lastIndex orig) TargetCallback)"
  let ?A = "runAfterHook F h name (firstArg as) 0 (js_get orig (lastIndex orig)) (if length as > 0 then as else cur)"
  obtain pre fin where A: "?A = pre @ fin" "\<forall>ev\<in>set pre. quiet ev" "final_part (js_get orig (lastIndex orig)) fin"
    using after_quiet_shape[of F h name "firstArg as" 0 "js_get orig (lastIndex orig)" "if length as > 0 then as else cur"] by blast
  have "runOriginalFunction F h name (target F t) orig cur = (?T # pre) @ fin"
    using CallNext A(1) by (simp add: runOriginalFunction_target)
  moreover have "\<forall>ev\<in>set (?T # pre). quiet ev" using A(2) by (simp add: quiet_def)
  ultimately show ?thesis using A(3) by blast
qed

lemma before_quiet_shape:
  "\<exists>pre fin. runBeforeHook F h name (target F t) e i orig cur = pre @ fin \<and>
      (\<forall>ev\<in>set pre. quiet ev) \<and> final_part (js_get orig (lastIndex orig)) fin"
proof -
  let ?cb = "js_get orig (lastIndex orig)"
  from before_shape_any[of F h name "target F t" e i orig cur] obtain pre fin where
    B: "runBeforeHook F h name (target F t) e i orig cur = pre @ fin"
       "\<forall>ev\<in>set pre. \<exists>k g u. ev = BeforeRan k g u" "before_end F h name (target F t) orig fin"
    by blast
  have q: "\<forall>ev\<in>set pre. quiet ev" using B(2) by (auto simp: quiet_def)
  from B(3) consider "final_part ?cb fin" | cur' where "fin = runOriginalFunction F h name (target F t) orig cur'"
    by (auto simp: before_end_def final_part_def call_value_def)
  then show ?thesis
  proof cases
    case 1
    then show ?thesis using B(1) q by blast
  next
    case 2
    obtain pre' fin' where O: "fin = pre' @ fin'" "\<forall>ev\<in>set pre'. quiet ev" "final_part ?cb fin'"
      using original_quiet_shape[of F h name t orig cur'] 2 by auto
    have "runBeforeHook F h name (target F t) e i orig cur = (pre @ pre') @ fin'"
      using B(1) O(1) by simp
    moreover have "\<forall>ev\<in>set (pre @ pre'). quiet ev" using q O(2) by auto
    ultimately show ?thesis using O(3) by blast
  qed
qed

lemma invoke_quiet_shape:
  assumes "methods h name = Wrapper n (Target t)"
  shows "\<exists>pre fin. invoke F h name args = pre @ fin \<and>
      (\<forall>ev\<in>set pre. quiet ev) \<and> final_part (js_get args (lastIndex args)) fin"
proof (cases "isFunction (js_get args (lastIndex args))")
  case True
  then have "invoke F h name args = runBeforeHook F h n (target F t) JNull 0 args args"
    using assms by (simp add: invoke_hooked wrapper_def)
  then show ?thesis using before_quiet_shape[of F h n t JNull 0 args args] by simp
next
  case False
  then have "invoke F h name args = [] @ [Threw AssertionError]"
    using assms by (simp add: invoke_hooked wrapper_def)
  moreover have "final_part (js_get args (lastIndex args)) [Threw AssertionError]"
    by (simp add: final_part_def)
  ultimately have "invoke F h name args = [] @ [Threw AssertionError] \<and> (\<forall>ev\<in>set []. quiet ev) \<and>
     final_part (js_get args (lastIndex args)) [Threw AssertionError]" by simp
  then show ?thesis by blast
qed

lemma threw_is_final:
  assumes "tr = pre @ fin" "\<forall>ev\<in>set pre. quiet ev" "final_part cb fin" "Threw x \<in> set tr"
  shows "last tr = Threw x \<and> filter is_callback tr = []"
proof -
  have "Threw x \<notin> set pre" using assms(2) by (auto simp: quiet_def)
  then have "Threw x \<in> set fin" using assms(1,4) by auto
  then have fin: "fin = [Threw x]" using assms(3) by (auto simp: final_part_def)
  have "filter is_callback pre = []" using assms(2) by (auto simp: quiet_def filter_empty_conv)
  then show ?thesis using assms(1) fin by simp
qed


lemma after_only:
  assumes "ev \<in> set (runAfterHook F h name e j cb args)"
  shows "(\<exists>k g u. ev = AfterRan k g u) \<or> is_callback ev \<or> is_threw ev"
proof (cases "after_tab h name")
  case None
  from after_shape_None[OF this, of cb F e j args] assms show ?thesis
    by (auto simp: final_part_def)
next
  case (Some afs)
  from after_shape[OF this, of F e j cb args] obtain pre fin where
    "runAfterHook F h name e j cb args = pre @ fin" "\<forall>ev\<in>set pre. after_event afs j ev" "final_part cb fin"
    by blast
  with assms show ?thesis by (auto simp: final_part_def after_event_def)
qed

lemma runAfterHook_error:
  "isFunction cb \<Longrightarrow> instanceofError e \<Longrightarrow> runAfterHook F h name e j cb args = [CallbackRan cb [e]]"
  by (subst runAfterHook.simps) (simp add: call_value_def)

lemma runBeforeHook_error:
  "isFunction (js_get orig (lastIndex orig)) \<Longrightarrow> instanceofError e \<Longrightarrow>
   runBeforeHook F h name ofn e i orig cur = [CallbackRan (js_get orig (lastIndex orig)) [e]]"
  by (subst runBeforeHook.simps) (simp add: call_value_def)

lemma runBeforeHook_done:
  "\<not> instanceofError e \<Longrightarrow> before_tab h name = Some bs \<Longrightarrow> \<not> i < length bs \<Longrightarrow>
   runBeforeHook F h name ofn e i orig cur = runOriginalFunction F h name ofn orig cur"
  by (subst runBeforeHook.simps) simp

lemma runBeforeHook_zero:
  "\<not> instanceofError e \<Longrightarrow> before_tab h name = Some bs \<Longrightarrow> i < length bs \<Longrightarrow>
   arity (F (bs ! i)) = 0 \<Longrightarrow>
   runBeforeHook F h name ofn e i orig cur =
     [Threw (HookError ''Your before must have a next argument -- e.g., function(next, ...)'')]"
  by (subst runBeforeHook.simps) simp

lemma runBeforeHook_step:
  "\<not> instanceofError e \<Longrightarrow> before_tab h name = Some bs \<Longrightarrow> i < length bs \<Longrightarrow>
   arity (F (bs ! i)) \<noteq> 0 \<Longrightarrow>
   runBeforeHook F h name ofn e i orig cur =
     BeforeRan i (bs ! i) (js_set orig (lastIndex orig) (BeforeNext (i + 1))) #
       (case body (F (bs ! i)) (js_set orig (lastIndex orig) (BeforeNext (i + 1))) of
          NoCall \<Rightarrow> []
        | CallNext as \<Rightarrow>
            runBeforeHook F h name ofn (firstArg as) (i + 1) orig (callbackArguments as cur))"
  by (subst runBeforeHook.simps) simp

lemma runAfterHook_done:
  "isFunction cb \<Longrightarrow> \<not> instanceofError e \<Longrightarrow> after_tab h name = Some afs \<Longrightarrow> \<not> j < length afs \<Longrightarrow>
   runAfterHook F h name e j cb res = [CallbackRan cb res]"
  by (subst runAfterHook.simps) (simp add: call_value_def)

lemma runAfterHook_step:
  "isFunction cb \<Longrightarrow> \<not> instanceofError e \<Longrightarrow> after_tab h name = Some afs \<Longrightarrow> j < length afs \<Longrightarrow>
   arity (F (afs ! j)) \<noteq> 0 \<Longrightarrow>
   runAfterHook F h name e j cb res =
     AfterRan j (afs ! j) (res @ [AfterNext (j + 1)]) #
       (case body (F (afs ! j)) (res @ [AfterNext (j + 1)]) of
          NoCall \<Rightarrow> []
        | CallNext as \<Rightarrow> runAfterHook F h name e (j + 1) cb (callbackArguments as res))"
  by (subst runAfterHook.simps) simp

lemma original_events:
  assumes "ev \<in> set (runOriginalFunction F h name (target F t) orig cur)"
  shows "ev = TargetRan t (js_set cur (lastIndex orig) TargetCallback) \<or>
         (\<exists>k g u. ev = AfterRan k g u) \<or> is_callback ev \<or> is_threw ev"
proof (cases "body (F t) (js_set cur (lastIndex orig) TargetCallback)")
  case NoCall
  then show ?thesis using assms by (simp add: runOriginalFunction_target)
next
  case (CallNext as)
  let ?A = "runAfterHook F h name (firstArg as) 0 (js_get orig (lastIndex orig))
              (if length as > 0 then as else cur)"
  from CallNext assms have "ev = TargetRan t (js_set cur (lastIndex orig) TargetCallback) \<or> ev \<in> set ?A"
    by (simp add: runOriginalFunction_target)
  then show ?thesis using after_only[of ev F h name "firstArg as" 0 "js_get orig (lastIndex orig)"] by blast
qed

lemma before_index_bound:
  assumes "before_tab h name = Some bs"
    and "BeforeRan i f v \<in> set (runBeforeHook F h name (target F t) e i0 orig cur)"
  shows "before_event bs orig i0 (BeforeRan i f v)"
proof -
  from before_shape[OF assms(1), of F "target F t" e i0 orig cur] obtain pre fin where
    B: "runBeforeHook F h name (target F t) e i0 orig cur = pre @ fin"
       "\<forall>ev\<in>set pre. before_event bs orig i0 ev" "before_end F h name (target F t) orig fin"
    by blast
  have "BeforeRan i f v \<notin> set fin"
  proof
    assume m: "BeforeRan i f v \<in> set fin"
    from B(3) consider "fin = []" | x where "fin = [Threw x]"
      | err where "fin = call_value (js_get orig (lastIndex orig)) [err]"
      | cur' where "fin = runOriginalFunction F h name (target F t) orig cur'"
      by (auto simp: before_end_def)
    then show False
    proof cases
      case 1 then show ?thesis using m by simp
    next
      case 2 then show ?thesis using m by simp
    next
      case 3 then show ?thesis using m by (simp add: call_value_def split: if_splits)
    next
      case 4
      then show ?thesis using m original_events[of "BeforeRan i f v" F h name t orig cur'] by simp
    qed
  qed
  then show ?thesis using B(1,2) assms(2) by auto
qed

lemma before_error_abort:
  assumes "before_tab h name = Some bs"
    and "isFunction (js_get orig (lastIndex orig))"
    and "BeforeRan i f v \<in> set (runBeforeHook F h name (target F t) e i0 orig cur)"
    and "body (F f) v = CallNext as" and "instanceofError (firstArg as)"
  shows "\<exists>pre. runBeforeHook F h name (target F t) e i0 orig cur =
            pre @ [BeforeRan i f v, CallbackRan (js_get orig (lastIndex orig)) [firstArg as]] \<and>
          (\<forall>ev\<in>set pre. \<exists>k g u. ev = BeforeRan k g u \<and> k < i)"
  using assms
proof (induction F h name "target F t" e i0 orig cur rule: runBeforeHook.induct)
  case (1 F h name error i0 orig cur)
  let ?R = "runBeforeHook F h name (target F t) error i0 orig cur"
  let ?v = "js_set orig (lastIndex orig) (BeforeNext (i0 + 1))"
  let ?cb = "js_get orig (lastIndex orig)"
  have go: "\<not> instanceofError error \<and> i0 < length bs \<and> arity (F (bs ! i0)) \<noteq> 0"
  proof (rule ccontr)
    assume n: "\<not> ?thesis"
    have "?R = [CallbackRan ?cb [error]] \<or> (\<exists>x. ?R = [Threw x]) \<or>
          ?R = runOriginalFunction F h name (target F t) orig cur"
      using n "1.prems"(1,2) runBeforeHook_error[of orig error F h name "target F t" i0 cur]
        runBeforeHook_done[of error h name bs i0 F "target F t" orig cur]
        runBeforeHook_zero[of error h name bs i0 F "target F t" orig cur]
      by blast
    then show False using "1.prems"(3) original_events[of "BeforeRan i f v" F h name t orig cur]
      by (auto simp: call_value_def split: if_splits)
  qed
  show ?case
  proof (cases "body (F (bs ! i0)) ?v")
    case NoCall
    with go "1.prems"(1) have R: "?R = [BeforeRan i0 (bs ! i0) ?v]"
      by (simp add: runBeforeHook_step)
    with "1.prems"(3,4) NoCall show ?thesis by auto
  next
    case (CallNext as0)
    let ?R' = "runBeforeHook F h name (target F t) (firstArg as0) (i0 + 1) orig (callbackArguments as0 cur)"
    from go "1.prems"(1) CallNext have R: "?R = BeforeRan i0 (bs ! i0) ?v # ?R'"
      by (simp add: runBeforeHook_step)
    show ?thesis
    proof (cases "BeforeRan i f v = BeforeRan i0 (bs ! i0) ?v")
      case True
      then have "as0 = as" using CallNext "1.prems"(4) by simp
      then have "?R' = [CallbackRan ?cb [firstArg as]]"
        using runBeforeHook_error[OF "1.prems"(2) "1.prems"(5)] by simp
      then have "?R = [] @ [BeforeRan i f v, CallbackRan ?cb [firstArg as]]" using R True by simp
      then show ?thesis by (metis empty_iff list.set(1))
    next
      case False
      from "1.prems"(3) R have "BeforeRan i f v \<in> set (BeforeRan i0 (bs ! i0) ?v # ?R')" by simp
      then have "BeforeRan i f v = BeforeRan i0 (bs ! i0) ?v \<or> BeforeRan i f v \<in> set ?R'"
        by (rule set_ConsD)
      with False have mem: "BeforeRan i f v \<in> set ?R'" by blast
      from "1.hyps"[of bs as0] go "1.prems"(1,2,4,5) CallNext mem
      obtain pre where IH: "?R' = pre @ [BeforeRan i f v, CallbackRan ?cb [firstArg as]]"
         "\<forall>ev\<in>set pre. \<exists>k g u. ev = BeforeRan k g u \<and> k < i"
        by auto
      from before_index_bound[OF "1.prems"(1) mem] have "i0 < i" by (auto simp: before_event_def)
      then have "\<forall>ev\<in>set (BeforeRan i0 (bs ! i0) ?v # pre). \<exists>k g u. ev = BeforeRan k g u \<and> k < i"
        using IH(2) by auto
      moreover have "?R = (BeforeRan i0 (bs ! i0) ?v # pre) @ [BeforeRan i f v, CallbackRan ?cb [firstArg as]]"
        using R IH(1) by simp
      ultimately show ?thesis by blast
    qed
  qed
qed


lemma invoke_run:
  assumes "methods h name = Wrapper n (Target t)" and "isFunction (js_get args (lastIndex args))"
  shows "invoke F h name args = runBeforeHook F h n (target F t) JNull 0 args args"
  using assms by (simp add: invoke_hooked wrapper_def)

lemma invoke_asserts:
  assumes "methods h name = Wrapper n (Target t)" and "ev \<in> set (invoke F h name args)" and "\<not> is_threw ev"
  shows "isFunction (js_get args (lastIndex args))"
proof (rule ccontr)
  assume "\<not> ?thesis"
  then have "invoke F h name args = [Threw AssertionError]"
    using assms(1) by (simp add: invoke_hooked wrapper_def)
  then show False using assms(2,3) by auto
qed

lemma target_error_abort:
  assumes "isFunction (js_get orig (lastIndex orig))"
    and "TargetRan t w \<in> set (runBeforeHook F h name (target F t) e i0 orig cur)"
    and "body (F t) w = CallNext as" and "instanceofError (firstArg as)"
  shows "\<exists>pre. runBeforeHook F h name (target F t) e i0 orig cur =
            pre @ [TargetRan t w, CallbackRan (js_get orig (lastIndex orig)) [firstArg as]] \<and>
          (\<forall>ev\<in>set pre. \<exists>k g u. ev = BeforeRan k g u)"
proof -
  let ?cb = "js_get orig (lastIndex orig)"
  from before_shape_any[of F h name "target F t" e i0 orig cur] obtain pre fin where
    B: "runBeforeHook F h name (target F t) e i0 orig cur = pre @ fin"
       "\<forall>ev\<in>set pre. \<exists>k g u. ev = BeforeRan k g u" "before_end F h name (target F t) orig fin"
    by blast
  note pre = B(2)
  then have "TargetRan t w \<notin> set pre" by auto
  then have m: "TargetRan t w \<in> set fin" using B(1) assms(2) by auto
  from B(3) consider "fin = []" | x where "fin = [Threw x]"
    | err where "fin = call_value ?cb [err]"
    | cur' where "fin = runOriginalFunction F h name (target F t) orig cur'"
    by (auto simp: before_end_def)
  then show ?thesis
  proof cases
    case 1 then show ?thesis using m by simp
  next
    case 2 then show ?thesis using m by simp
  next
    case 3 then show ?thesis using m by (simp add: call_value_def split: if_splits)
  next
    case 4
    let ?w = "js_set cur' (lastIndex orig) TargetCallback"
    from original_events[of "TargetRan t w" F h name t orig cur'] m 4
    have w: "w = ?w" by auto
    then have "fin = [TargetRan t w, CallbackRan ?cb [firstArg as]]"
      using 4 assms(1,3,4) by (simp add: runOriginalFunction_target runAfterHook_error)
    then show ?thesis using B(1) pre by blast
  qed
qed

lemma before_ran_needs_list:
  assumes "BeforeRan i f v \<in> set (runBeforeHook F h name (target F t) e i0 orig cur)"
  shows "\<exists>bs. before_tab h name = Some bs"
proof (rule ccontr)
  assume "\<not> ?thesis"
  then have n: "before_tab h name = None" by simp
  let ?R = "runBeforeHook F h name (target F t) e i0 orig cur"
  from before_shape_None[OF n, of F "target F t" orig e i0 cur]
  consider "?R = []" | x where "?R = [Threw x]"
    | err where "?R = call_value (js_get orig (lastIndex orig)) [err]"
    | cur' where "?R = runOriginalFunction F h name (target F t) orig cur'"
    by (auto simp: before_end_def)
  then show False
  proof cases
    case 1 then show ?thesis using assms by simp
  next
    case 2 then show ?thesis using assms by simp
  next
    case 3 then show ?thesis using assms by (simp add: call_value_def split: if_splits)
  next
    case 4
    then show ?thesis using assms original_events[of "BeforeRan i f v" F h name t orig cur'] by simp
  qed
qed

lemma replied_ok_replied: "replied_ok F ev \<Longrightarrow> replied F ev"
  by (cases ev) (auto simp: no_error_def split: reply.splits)

lemma after_steps:
  assumes "isFunction cb" "\<not> instanceofError e" "after_tab h name = Some afs"
    and "\<forall>g\<in>set afs. declares_next F g"
    and "\<forall>ev\<in>set (runAfterHook F h name e j cb res). replied F ev"
  shows "map step_of (runAfterHook F h name e j cb res) =
           map (\<lambda>k. AfterStep k (afs ! k)) [j..<length afs] @ [CallbackStep cb]"
  using assms
proof (induction F h name e j cb res rule: runAfterHook.induct)
  case (1 F h name error j cb res)
  show ?case
  proof (cases "j < length afs")
    case False
    then show ?thesis using "1.prems" by (simp add: runAfterHook_done)
  next
    case True
    let ?v = "res @ [AfterNext (j + 1)]"
    let ?R = "runAfterHook F h name error j cb res"
    have g: "afs ! j \<in> set afs" using True by simp
    then have ar: "arity (F (afs ! j)) \<noteq> 0"
      using "1.prems"(4) by (auto simp: declares_next_def)
    have step: "?R = AfterRan j (afs ! j) ?v #
        (case body (F (afs ! j)) ?v of NoCall \<Rightarrow> []
         | CallNext as \<Rightarrow> runAfterHook F h name error (j + 1) cb (callbackArguments as res))"
      using "1.prems"(1,2,3) True ar by (rule runAfterHook_step)
    then have "AfterRan j (afs ! j) ?v \<in> set ?R" by simp
    then have "replied F (AfterRan j (afs ! j) ?v)" using "1.prems"(5) by blast
    then obtain as where as: "body (F (afs ! j)) ?v = CallNext as"
      by (cases "body (F (afs ! j)) ?v") auto
    let ?R' = "runAfterHook F h name error (j + 1) cb (callbackArguments as res)"
    have R: "?R = AfterRan j (afs ! j) ?v # ?R'" using step as by simp
    then have sub: "\<forall>ev\<in>set ?R'. replied F ev" using "1.prems"(5) by simp
    have IH: "map step_of ?R' =
           map (\<lambda>k. AfterStep k (afs ! k)) [j + 1..<length afs] @ [CallbackStep cb]"
      using "1.IH"[of afs as] "1.prems"(1,2,3,4) True ar as sub by simp
    show ?thesis using R IH True by (simp add: upt_conv_Cons)
  qed
qed

lemma before_steps:
  assumes "isFunction (js_get orig (lastIndex orig))" "\<not> instanceofError e"
    and "before_tab h name = Some bs" "after_tab h name = Some afs"
    and "\<forall>g\<in>set bs \<union> set afs. declares_next F g"
    and "\<forall>ev\<in>set (runBeforeHook F h name (target F t) e i orig cur). replied_ok F ev"
  shows "map step_of (runBeforeHook F h name (target F t) e i orig cur) =
           map (\<lambda>k. BeforeStep k (bs ! k)) [i..<length bs] @ [TargetStep t] @
           map (\<lambda>k. AfterStep k (afs ! k)) [0..<length afs] @
           [CallbackStep (js_get orig (lastIndex orig))]"
  using assms
proof (induction F h name "target F t" e i orig cur rule: runBeforeHook.induct)
  case (1 F h name error i orig cur)
  let ?cb = "js_get orig (lastIndex orig)"
  let ?R = "runBeforeHook F h name (target F t) error i orig cur"
  show ?case
  proof (cases "i < length bs")
    case False
    let ?w = "js_set cur (lastIndex orig) TargetCallback"
    have R0: "?R = TargetRan t ?w #
       (case body (F t) ?w of NoCall \<Rightarrow> []
        | CallNext as \<Rightarrow> runAfterHook F h name (firstArg as) 0 ?cb (if length as > 0 then as else cur))"
      using False "1.prems"(2,3) by (simp add: runBeforeHook_done runOriginalFunction_target)
    then have "TargetRan t ?w \<in> set ?R" by simp
    then have "replied_ok F (TargetRan t ?w)" using "1.prems"(6) by blast
    then obtain as where as: "body (F t) ?w = CallNext as" "\<not> instanceofError (firstArg as)"
      by (cases "body (F t) ?w") (auto simp: no_error_def)
    let ?A = "runAfterHook F h name (firstArg as) 0 ?cb (if length as > 0 then as else cur)"
    have R: "?R = TargetRan t ?w # ?A" using R0 as(1) by simp
    then have "\<forall>ev\<in>set ?A. replied_ok F ev" using "1.prems"(6) by simp
    then have sub: "\<forall>ev\<in>set ?A. replied F ev" using replied_ok_replied by blast
    have d: "\<forall>g\<in>set afs. declares_next F g" using "1.prems"(5) by auto
    show ?thesis
      using False R after_steps[OF "1.prems"(1) as(2) "1.prems"(4) d sub] by simp
  next
    case True
    let ?v = "js_set orig (lastIndex orig) (BeforeNext (i + 1))"
    have g: "bs ! i \<in> set bs" using True by simp
    then have ar: "arity (F (bs ! i)) \<noteq> 0" using "1.prems"(5) by (auto simp: declares_next_def)
    have step: "?R = BeforeRan i (bs ! i) ?v #
       (case body (F (bs ! i)) ?v of NoCall \<Rightarrow> []
        | CallNext as \<Rightarrow>
            runBeforeHook F h name (target F t) (firstArg as) (i + 1) orig (callbackArguments as cur))"
      using "1.prems"(2,3) True ar by (rule runBeforeHook_step)
    then have "BeforeRan i (bs ! i) ?v \<in> set ?R" by simp
    then have "replied_ok F (BeforeRan i (bs ! i) ?v)" using "1.prems"(6) by blast
    then obtain as where as: "body (F (bs ! i)) ?v = CallNext as" "\<not> instanceofError (firstArg as)"
      by (cases "body (F (bs ! i)) ?v") (auto simp: no_error_def)
    let ?R' = "runBeforeHook F h name (target F t) (firstArg as) (i + 1) orig (callbackArguments as cur)"
    have R: "?R = BeforeRan i (bs ! i) ?v # ?R'" using step as(1) by simp
    then have sub: "\<forall>ev\<in>set ?R'. replied_ok F ev" using "1.prems"(6) by simp
    have IH: "map step_of ?R' =
           map (\<lambda>k. BeforeStep k (bs ! k)) [i + 1..<length bs] @ [TargetStep t] @
           map (\<lambda>k. AfterStep k (afs ! k)) [0..<length afs] @ [CallbackStep ?cb]"
      using "1.hyps"[of bs as] "1.prems"(1,2,3,4,5) True ar as sub by simp
    show ?thesis using R IH True by (simp add: upt_conv_Cons)
  qed
qed



lemma after_once:
  assumes "isFunction cb" "after_tab h name = Some afs"
    and "\<forall>g\<in>set afs. declares_next F g"
    and "\<forall>ev\<in>set (runAfterHook F h name e j cb res). replied F ev"
  shows "\<exists>pre as. runAfterHook F h name e j cb res = pre @ [CallbackRan cb as] \<and> (\<forall>ev\<in>set pre. quiet ev)"
proof (cases "instanceofError e")
  case True
  then have "runAfterHook F h name e j cb res = [] @ [CallbackRan cb [e]]"
    using assms(1) by (simp add: runAfterHook_error)
  moreover have "\<forall>ev\<in>set []. quiet ev" by simp
  ultimately show ?thesis by blast
next
  case False
  let ?R = "runAfterHook F h name e j cb res"
  have st: "map step_of ?R = map (\<lambda>k. AfterStep k (afs ! k)) [j..<length afs] @ [CallbackStep cb]"
    using after_steps[OF assms(1) False assms(2,3,4)] .
  then have ne: "?R \<noteq> []" by auto
  have "last (map step_of ?R) = CallbackStep cb" using st by simp
  then have l: "step_of (last ?R) = CallbackStep cb" using ne by (simp add: last_map)
  obtain pre fin where S: "?R = pre @ fin" "\<forall>ev\<in>set pre. quiet ev" "final_part cb fin"
    using after_quiet_shape[of F h name e j cb res] by blast
  from S(3) consider "fin = []" | as where "fin = [CallbackRan cb as]" | x where "fin = [Threw x]"
    by (auto simp: final_part_def)
  then show ?thesis
  proof cases
    case 1
    then have "last ?R \<in> set pre" using S(1) ne by (metis append_Nil2 last_in_set)
    then have "quiet (last ?R)" using S(2) by blast
    then show ?thesis using l by (cases "last ?R") (auto simp: quiet_def)
  next
    case 2
    then show ?thesis using S(1,2) by blast
  next
    case 3
    then have "last ?R = Threw x" using S(1) by simp
    then show ?thesis using l by simp
  qed
qed

lemma before_once:
  assumes "isFunction (js_get orig (lastIndex orig))"
    and "before_tab h name = Some bs" "after_tab h name = Some afs"
    and "\<forall>g\<in>set bs \<union> set afs. declares_next F g"
    and "\<forall>ev\<in>set (runBeforeHook F h name (target F t) e i orig cur). replied F ev"
  shows "\<exists>pre as. runBeforeHook F h name (target F t) e i orig cur =
            pre @ [CallbackRan (js_get orig (lastIndex orig)) as] \<and> (\<forall>ev\<in>set pre. quiet ev)"
  using assms
proof (induction F h name "target F t" e i orig cur rule: runBeforeHook.induct)
  case (1 F h name error i orig cur)
  let ?cb = "js_get orig (lastIndex orig)"
  let ?R = "runBeforeHook F h name (target F t) error i orig cur"
  show ?case
  proof (cases "instanceofError error")
    case True
    then have "?R = [] @ [CallbackRan ?cb [error]]"
      using "1.prems"(1) by (simp add: runBeforeHook_error)
    moreover have "\<forall>ev\<in>set []. quiet ev" by simp
    ultimately show ?thesis by blast
  next
    case noerr: False
    show ?thesis
    proof (cases "i < length bs")
      case False
      let ?w = "js_set cur (lastIndex orig) TargetCallback"
      have R0: "?R = TargetRan t ?w #
         (case body (F t) ?w of NoCall \<Rightarrow> []
          | CallNext as \<Rightarrow> runAfterHook F h name (firstArg as) 0 ?cb (if length as > 0 then as else cur))"
        using False noerr "1.prems"(2) by (simp add: runBeforeHook_done runOriginalFunction_target)
      then have "TargetRan t ?w \<in> set ?R" by simp
      then have "replied F (TargetRan t ?w)" using "1.prems"(5) by blast
      then obtain as where as: "body (F t) ?w = CallNext as"
        by (cases "body (F t) ?w") auto
      let ?A = "runAfterHook F h name (firstArg as) 0 ?cb (if length as > 0 then as else cur)"
      have R: "?R = TargetRan t ?w # ?A" using R0 as by simp
      then have sub: "\<forall>ev\<in>set ?A. replied F ev" using "1.prems"(5) by simp
      have d: "\<forall>g\<in>set afs. declares_next F g" using "1.prems"(4) by auto
      obtain pre as' where A: "?A = pre @ [CallbackRan ?cb as']" "\<forall>ev\<in>set pre. quiet ev"
        using after_once[OF "1.prems"(1) "1.prems"(3) d sub] by blast
      have "?R = (TargetRan t ?w # pre) @ [CallbackRan ?cb as']" using R A(1) by simp
      moreover have "\<forall>ev\<in>set (TargetRan t ?w # pre). quiet ev" using A(2) by (simp add: quiet_def)
      ultimately show ?thesis by blast
    next
      case True
      let ?v = "js_set orig (lastIndex orig) (BeforeNext (i + 1))"
      have g: "bs ! i \<in> set bs" using True by simp
      then have ar: "arity (F (bs ! i)) \<noteq> 0" using "1.prems"(4) by (auto simp: declares_next_def)
      have step: "?R = BeforeRan i (bs ! i) ?v #
         (case body (F (bs ! i)) ?v of NoCall \<Rightarrow> []
          | CallNext as \<Rightarrow>
              runBeforeHook F h name (target F t) (firstArg as) (i + 1) orig (callbackArguments as cur))"
        using noerr "1.prems"(2) True ar by (rule runBeforeHook_step)
      then have "BeforeRan i (bs ! i) ?v \<in> set ?R" by simp
      then have "replied F (BeforeRan i (bs ! i) ?v)" using "1.prems"(5) by blast
      then obtain as where as: "body (F (bs ! i)) ?v = CallNext as"
        by (cases "body (F (bs ! i)) ?v") auto
      let ?R' = "runBeforeHook F h name (target F t) (firstArg as) (i + 1) orig (callbackArguments as cur)"
      have R: "?R = BeforeRan i (bs ! i) ?v # ?R'" using step as by simp
      then have sub: "\<forall>ev\<in>set ?R'. replied F ev" using "1.prems"(5) by simp
      obtain pre as' where IH: "?R' = pre @ [CallbackRan ?cb as']" "\<forall>ev\<in>set pre. quiet ev"
        using "1.hyps"[of bs as] "1.prems"(1,2,3,4) noerr True ar as sub by blast
      have "?R = (BeforeRan i (bs ! i) ?v # pre) @ [CallbackRan ?cb as']" using R IH(1) by simp
      moreover have "\<forall>ev\<in>set (BeforeRan i (bs ! i) ?v # pre). quiet ev" using IH(2) by (simp add: quiet_def)
      ultimately show ?thesis by blast
    qed
  qed
qed



lemma js_set_last: "xs \<noteq> [] \<Longrightarrow> js_set xs (lastIndex xs) v = butlast xs @ [v]"
proof -
  assume ne: "xs \<noteq> []"
  then have xs: "xs = butlast xs @ [last xs]" by simp
  have "xs[length xs - 1 := v] = (butlast xs @ [last xs])[length (butlast xs) := v]"
    using xs by simp
  also have "\<dots> = butlast xs @ [v]" by (simp only: list_update_length)
  finally have "xs[length xs - 1 := v] = butlast xs @ [v]" .
  moreover have "nat (lastIndex xs) = length xs - 1" "\<not> lastIndex xs < 0" "nat (lastIndex xs) < length xs"
    using ne by (cases xs; simp add: lastIndex_def)+
  ultimately show ?thesis by (simp add: js_set_def)
qed

lemma function_slot_nonempty: "isFunction (js_get xs (lastIndex xs)) \<Longrightarrow> xs \<noteq> []"
  by (auto simp: js_get_def lastIndex_def)

lemma after_events:
  assumes "after_tab h name = Some afs" "ev \<in> set (runAfterHook F h name e j cb res)"
  shows "after_event afs j ev \<or> is_callback ev \<or> is_threw ev"
proof -
  from after_shape[OF assms(1), of F e j cb res] obtain pre fin where
    "runAfterHook F h name e j cb res = pre @ fin" "\<forall>ev\<in>set pre. after_event afs j ev" "final_part cb fin"
    by blast
  with assms(2) show ?thesis by (auto simp: final_part_def)
qed

lemma original_events_after:
  assumes "after_tab h name = Some afs"
    and "ev \<in> set (runOriginalFunction F h name (target F t) orig cur)"
  shows "ev = TargetRan t (js_set cur (lastIndex orig) TargetCallback) \<or>
         after_event afs 0 ev \<or> is_callback ev \<or> is_threw ev"
proof (cases "body (F t) (js_set cur (lastIndex orig) TargetCallback)")
  case NoCall
  then show ?thesis using assms(2) by (simp add: runOriginalFunction_target)
next
  case (CallNext as)
  let ?A = "runAfterHook F h name (firstArg as) 0 (js_get orig (lastIndex orig))
              (if length as > 0 then as else cur)"
  from CallNext assms(2) have "ev = TargetRan t (js_set cur (lastIndex orig) TargetCallback) \<or> ev \<in> set ?A"
    by (simp add: runOriginalFunction_target)
  then show ?thesis
    using after_events[OF assms(1), of ev F "firstArg as" 0 "js_get orig (lastIndex orig)"] by blast
qed

lemma before_events:
  assumes "before_tab h name = Some bs" "after_tab h name = Some afs"
    and "ev \<in> set (runBeforeHook F h name (target F t) e i orig cur)"
  shows "before_event bs orig i ev \<or> (\<exists>w. ev = TargetRan t w) \<or> after_event afs 0 ev \<or>
         is_callback ev \<or> is_threw ev"
proof -
  from before_shape[OF assms(1), of F "target F t" e i orig cur] obtain pre fin where
    B: "runBeforeHook F h name (target F t) e i orig cur = pre @ fin"
       "\<forall>ev\<in>set pre. before_event bs orig i ev" "before_end F h name (target F t) orig fin"
    by blast
  from assms(3) B(1) consider "ev \<in> set pre" | "ev \<in> set fin" by auto
  then show ?thesis
  proof cases
    case 1 then show ?thesis using B(2) by blast
  next
    case 2
    from B(3) consider "fin = []" | x where "fin = [Threw x]"
      | err where "fin = call_value (js_get orig (lastIndex orig)) [err]"
      | cur' where "fin = runOriginalFunction F h name (target F t) orig cur'"
      by (auto simp: before_end_def)
    then show ?thesis
    proof cases
      case 1 then show ?thesis using 2 by simp
    next
      case 2 then show ?thesis using \<open>ev \<in> set fin\<close> by auto
    next
      case 3 then show ?thesis using 2 by (auto simp: call_value_def split: if_splits)
    next
      case 4
      then show ?thesis using 2 original_events_after[OF assms(2), of ev F t orig cur'] by blast
    qed
  qed
qed



lemma filter_out_count: "g \<noteq> fn \<Longrightarrow> count_list (filter (\<lambda>c. c \<noteq> fn) xs) g = count_list xs g"
  by (induction xs) auto

lemma filter_out_length: "length (filter (\<lambda>c. c \<noteq> fn) xs) + count_list xs fn = length xs"
  by (induction xs) auto















lemma before_replies_none:
  "\<forall>ev\<in>set tr. \<not> (\<exists>k g u. ev = BeforeRan k g u) \<Longrightarrow> before_replies F tr = []"
  by (induction F tr rule: before_replies.induct) auto

lemma original_target_vector:
  assumes "TargetRan t w \<in> set (runOriginalFunction F h name (target F t) orig cur)"
  shows "w = js_set cur (lastIndex orig) TargetCallback"
    and "before_replies F (runOriginalFunction F h name (target F t) orig cur) = []"
proof -
  show "w = js_set cur (lastIndex orig) TargetCallback"
    using original_events[OF assms] by auto
  have "\<forall>ev\<in>set (runOriginalFunction F h name (target F t) orig cur). \<not> (\<exists>k g u. ev = BeforeRan k g u)"
  proof
    fix ev assume "ev \<in> set (runOriginalFunction F h name (target F t) orig cur)"
    from original_events[OF this] show "\<not> (\<exists>k g u. ev = BeforeRan k g u)" by auto
  qed
  then show "before_replies F (runOriginalFunction F h name (target F t) orig cur) = []"
    by (rule before_replies_none)
qed

lemma target_vector_fold:
  assumes "TargetRan t w \<in> set (runBeforeHook F h name (target F t) e i orig cur)"
  shows "w = js_set (foldl (\<lambda>c as. callbackArguments as c) cur
                      (before_replies F (runBeforeHook F h name (target F t) e i orig cur)))
                (lastIndex orig) TargetCallback"
  using assms
proof (induction F h name "target F t" e i orig cur rule: runBeforeHook.induct)
  case (1 F h name error i orig cur)
  let ?R = "runBeforeHook F h name (target F t) error i orig cur"
  let ?O = "runOriginalFunction F h name (target F t) orig cur"
  have at_end: "?R = ?O \<Longrightarrow> ?case"
  proof -
    assume eq: "?R = ?O"
    then have "TargetRan t w \<in> set ?O" using "1.prems" by simp
    from original_target_vector[OF this] show ?case using eq by simp
  qed
  have ne: "\<not> instanceofError error"
  proof
    assume "instanceofError error"
    then have "?R = call_value (js_get orig (lastIndex orig)) [error]"
      by (subst runBeforeHook.simps) simp
    then show False using "1.prems" by (simp add: call_value_def split: if_splits)
  qed
  show ?case
  proof (cases "before_tab h name")
    case None
    then have "?R = no_list (before_obj h) name i ?O"
      using ne by (subst runBeforeHook.simps) simp
    then have "?R = [Threw TypeError] \<or> ?R = ?O"
      using no_list_cases[of "before_obj h" name i ?O] by simp
    then show ?thesis using at_end "1.prems" by auto
  next
    case (Some bs)
    show ?thesis
    proof (cases "i < length bs")
      case False
      then have "?R = ?O" using ne Some by (simp add: runBeforeHook_done)
      then show ?thesis by (rule at_end)
    next
      case True
      let ?v = "js_set orig (lastIndex orig) (BeforeNext (i + 1))"
      have ar: "arity (F (bs ! i)) \<noteq> 0"
      proof
        assume "arity (F (bs ! i)) = 0"
        then have "?R = [Threw (HookError ''Your before must have a next argument -- e.g., function(next, ...)'')]"
          using ne Some True by (simp add: runBeforeHook_zero)
        then show False using "1.prems" by simp
      qed
      have step: "?R = BeforeRan i (bs ! i) ?v #
         (case body (F (bs ! i)) ?v of NoCall \<Rightarrow> []
          | CallNext as \<Rightarrow>
              runBeforeHook F h name (target F t) (firstArg as) (i + 1) orig (callbackArguments as cur))"
        using ne Some True ar by (rule runBeforeHook_step)
      show ?thesis
      proof (cases "body (F (bs ! i)) ?v")
        case NoCall
        then show ?thesis using step "1.prems" by simp
      next
        case (CallNext as)
        let ?R' = "runBeforeHook F h name (target F t) (firstArg as) (i + 1) orig (callbackArguments as cur)"
        have R: "?R = BeforeRan i (bs ! i) ?v # ?R'" using step CallNext by simp
        then have mem: "TargetRan t w \<in> set ?R'" using "1.prems" by simp
        have IH: "w = js_set (foldl (\<lambda>c as. callbackArguments as c) (callbackArguments as cur)
                      (before_replies F ?R')) (lastIndex orig) TargetCallback"
          using "1.hyps"[of bs as] ne Some True ar CallNext mem by simp
        have "before_replies F ?R = as # before_replies F ?R'" using R CallNext by simp
        then show ?thesis using IH by simp
      qed
    qed
  qed
qed

lemma fold_in_force:
  assumes "\<forall>as\<in>set rs. passes_or_overrides args as"
  shows "foldl (\<lambda>c as. callbackArguments as c) cur rs =
           (case filter (\<lambda>as. as \<noteq> []) rs of [] \<Rightarrow> cur | os \<Rightarrow> tl (last os))"
  using assms
proof (induction rs rule: rev_induct)
  case Nil
  then show ?case by simp
next
  case (snoc as rs)
  then have IH: "foldl (\<lambda>c as. callbackArguments as c) cur rs =
           (case filter (\<lambda>as. as \<noteq> []) rs of [] \<Rightarrow> cur | os \<Rightarrow> tl (last os))"
    and p: "passes_or_overrides args as" by simp_all
  show ?case
  proof (cases as)
    case Nil
    then show ?thesis using IH by (simp add: callbackArguments_def firstArg_def)
  next
    case (Cons e rest)
    then have "e = JNull" "rest \<noteq> []" using p by (simp_all add: passes_or_overrides_def)
    then have "callbackArguments as (foldl (\<lambda>c as. callbackArguments as c) cur rs) = tl as"
      using Cons by (simp add: callbackArguments_def firstArg_def)
    then show ?thesis using Cons by (cases "filter (\<lambda>as. as \<noteq> []) rs") simp_all
  qed
qed

lemma js_set_end: "js_set xs (int (length xs)) v = xs @ [v]"
  by (simp add: js_set_def)

lemmas engine_defs =
  invoke_def wrapper_def lastIndex_def js_get_def js_set_def runBeforeHook.simps
  runOriginalFunction_def runAfterHook.simps firstArg_def callbackArguments_def call_value_def
  demo_F_def demo_host_def increment_def


section \<open>An after-hook that reports an error\<close>

text \<open>
  Claim C1: if the after-hook at index \<open>j\<close> calls its continuation with an error, no
  after-hook at a greater index runs and the caller's callback is invoked once, with that
  error. The continuation built by \<^verbatim>\<open>runAfterHook\<close> passes on the \<^verbatim>\<open>error\<close> it
  captured, not the \<^verbatim>\<open>afterHookError\<close> it received, so the error is dropped: below, the
  after-hook at index 0 reports \<open>JError ''boom''\<close>, the after-hook at index 1 still runs (on
  an empty result vector), and the caller's callback receives no argument at all.
\<close>

theorem after_hook_error_is_dropped:
  "invoke demo_F (demo_host 0 [] [3, 8]) ''save'' [JStr ''foo'', JNum 0, JFn 9] =
     [TargetRan 0 [JStr ''foo'', JNum 0, TargetCallback],
      AfterRan 0 3 [JNull, JStr ''bar'', JNum 1, AfterNext 1],
      AfterRan 1 8 [AfterNext 2],
      CallbackRan (JFn 9) []]"
  by (simp add: engine_defs)

section \<open>A hook without parameters\<close>

text \<open>
  Claim C10: when the before-hook or after-hook that is to run next declares no parameter,
  an exception is thrown at that point, the hook is not run, and the exception is not
  turned into a call of the caller's callback: the run from that point is the throw
  alone, and in any call of a hooked method a throw is the last thing that happens and
  the callback has not been invoked.
\<close>

theorem zero_parameter_hook_throws:
  assumes "methods h name = Wrapper name (Target t)"
  shows "(\<not> instanceofError e \<and> before_tab h name = Some bs \<and> i < length bs \<and> arity (F (bs ! i)) = 0
            \<longrightarrow> runBeforeHook F h name ofn e i orig cur =
                 [Threw (HookError ''Your before must have a next argument -- e.g., function(next, ...)'')])
       \<and> (isFunction cb \<and> \<not> instanceofError e \<and> after_tab h name = Some afs \<and> j < length afs \<and>
            arity (F (afs ! j)) = 0
            \<longrightarrow> runAfterHook F h name e j cb res =
                 [Threw (HookError ''Your after must have a next argument -- e.g., function(next, ...)'')])
       \<and> (\<forall>x. Threw x \<in> set (invoke F h name args)
            \<longrightarrow> last (invoke F h name args) = Threw x \<and> filter is_callback (invoke F h name args) = [])"
proof (intro conjI impI allI)
  assume "\<not> instanceofError e \<and> before_tab h name = Some bs \<and> i < length bs \<and> arity (F (bs ! i)) = 0"
  then show "runBeforeHook F h name ofn e i orig cur =
      [Threw (HookError ''Your before must have a next argument -- e.g., function(next, ...)'')]"
    by (subst runBeforeHook.simps) simp
next
  assume "isFunction cb \<and> \<not> instanceofError e \<and> after_tab h name = Some afs \<and> j < length afs \<and>
            arity (F (afs ! j)) = 0"
  then show "runAfterHook F h name e j cb res =
      [Threw (HookError ''Your after must have a next argument -- e.g., function(next, ...)'')]"
    by (subst runAfterHook.simps) simp
next
  fix x
  assume x: "Threw x \<in> set (invoke F h name args)"
  obtain pre fin where "invoke F h name args = pre @ fin" "\<forall>ev\<in>set pre. quiet ev"
      "final_part (js_get args (lastIndex args)) fin"
    using invoke_quiet_shape[OF assms, of F args] by blast
  from threw_is_final[OF this x]
  show "last (invoke F h name args) = Threw x" and "filter is_callback (invoke F h name args) = []"
    by simp_all
qed

theorem zero_parameter_hook_throws_witness:
  "methods (demo_host 0 [1, 4] [2]) ''save'' = Wrapper ''save'' (Target 0)
   \<and> arity (demo_F ([1, 4] ! 1)) = 0
   \<and> invoke demo_F (demo_host 0 [1, 4] [2]) ''save'' [JStr ''foo'', JNum 0, JFn 9] =
       [BeforeRan 0 1 [JStr ''foo'', JNum 0, BeforeNext 1],
        Threw (HookError ''Your before must have a next argument -- e.g., function(next, ...)'')]
   \<and> last (invoke demo_F (demo_host 0 [1, 4] [2]) ''save'' [JStr ''foo'', JNum 0, JFn 9]) =
       Threw (HookError ''Your before must have a next argument -- e.g., function(next, ...)'')
   \<and> filter is_callback (invoke demo_F (demo_host 0 [1, 4] [2]) ''save'' [JStr ''foo'', JNum 0, JFn 9]) = []"
proof -
  have m: "methods (demo_host 0 [1, 4] [2]) ''save'' = Wrapper ''save'' (Target 0)"
    by (simp add: demo_host_def)
  have tr: "invoke demo_F (demo_host 0 [1, 4] [2]) ''save'' [JStr ''foo'', JNum 0, JFn 9] =
       [BeforeRan 0 1 [JStr ''foo'', JNum 0, BeforeNext 1],
        Threw (HookError ''Your before must have a next argument -- e.g., function(next, ...)'')]"
    by (simp add: engine_defs)
  have a: "arity (demo_F ([1, 4] ! 1)) = 0" by (simp add: demo_F_def)
  from zero_parameter_hook_throws[OF m, of JNull "[1, 4]" 1 demo_F _ _ _ _ _ _ _ "[JStr ''foo'', JNum 0, JFn 9]"]
  have "\<forall>x. Threw x \<in> set (invoke demo_F (demo_host 0 [1, 4] [2]) ''save'' [JStr ''foo'', JNum 0, JFn 9])
      \<longrightarrow> last (invoke demo_F (demo_host 0 [1, 4] [2]) ''save'' [JStr ''foo'', JNum 0, JFn 9]) = Threw x
        \<and> filter is_callback (invoke demo_F (demo_host 0 [1, 4] [2]) ''save'' [JStr ''foo'', JNum 0, JFn 9]) = []"
    by blast
  then show ?thesis using m a tr by simp
qed

section \<open>A before-hook that reports an error\<close>

text \<open>
  Claim C5: if the before-hook at index \<open>i\<close> calls its continuation with an error, then no
  before-hook at a greater index runs, the target is never invoked, no after-hook runs,
  and the caller's callback is invoked exactly once, with that error alone.
\<close>

theorem before_hook_error_aborts:
  assumes "methods h name = Wrapper name (Target t)"
    and "BeforeRan i f v \<in> set (invoke F h name args)"
    and "body (F f) v = CallNext as" and "instanceofError (firstArg as)"
  shows "(\<forall>k g u. BeforeRan k g u \<in> set (invoke F h name args) \<longrightarrow> k \<le> i)
       \<and> (\<forall>t' w. TargetRan t' w \<notin> set (invoke F h name args))
       \<and> (\<forall>j g u. AfterRan j g u \<notin> set (invoke F h name args))
       \<and> filter is_callback (invoke F h name args) =
           [CallbackRan (js_get args (lastIndex args)) [firstArg as]]"
proof -
  let ?cb = "js_get args (lastIndex args)"
  have cb: "isFunction ?cb" using invoke_asserts[OF assms(1,2)] by simp
  have run: "invoke F h name args = runBeforeHook F h name (target F t) JNull 0 args args"
    using invoke_run[OF assms(1) cb] .
  have mem: "BeforeRan i f v \<in> set (runBeforeHook F h name (target F t) JNull 0 args args)"
    using assms(2) run by simp
  obtain bs where bs: "before_tab h name = Some bs"
    using before_ran_needs_list[OF mem] by blast
  from before_error_abort[OF bs cb mem assms(3,4)] run
  obtain pre where P: "invoke F h name args = pre @ [BeforeRan i f v, CallbackRan ?cb [firstArg as]]"
      "\<forall>ev\<in>set pre. \<exists>k g u. ev = BeforeRan k g u \<and> k < i"
    by auto
  have "filter is_callback pre = []" using P(2) by (auto simp: filter_empty_conv)
  then have "filter is_callback (invoke F h name args) = [CallbackRan ?cb [firstArg as]]"
    using P(1) by simp
  moreover have "\<forall>k g u. BeforeRan k g u \<in> set (invoke F h name args) \<longrightarrow> k \<le> i"
    using P by fastforce
  moreover have "\<forall>t' w. TargetRan t' w \<notin> set (invoke F h name args)"
    using P by fastforce
  moreover have "\<forall>j g u. AfterRan j g u \<notin> set (invoke F h name args)"
    using P by fastforce
  ultimately show ?thesis by blast
qed


theorem before_hook_error_aborts_witness:
  "methods (demo_host 0 [5, 1, 5] [2]) ''save'' = Wrapper ''save'' (Target 0)
   \<and> BeforeRan 1 1 [JStr ''baz'', JNum 0, BeforeNext 2]
       \<in> set (invoke demo_F (demo_host 0 [5, 1, 5] [2]) ''save'' [JStr ''baz'', JNum 0, JFn 9])
   \<and> body (demo_F 1) [JStr ''baz'', JNum 0, BeforeNext 2] = CallNext [JError ''Invalid'']
   \<and> instanceofError (firstArg [JError ''Invalid''])
   \<and> filter is_callback (invoke demo_F (demo_host 0 [5, 1, 5] [2]) ''save'' [JStr ''baz'', JNum 0, JFn 9]) =
       [CallbackRan (JFn 9) [JError ''Invalid'']]
   \<and> (\<forall>t' w. TargetRan t' w \<notin> set (invoke demo_F (demo_host 0 [5, 1, 5] [2]) ''save''
                                      [JStr ''baz'', JNum 0, JFn 9]))"
proof -
  have m: "methods (demo_host 0 [5, 1, 5] [2]) ''save'' = Wrapper ''save'' (Target 0)"
    by (simp add: demo_host_def)
  have tr: "invoke demo_F (demo_host 0 [5, 1, 5] [2]) ''save'' [JStr ''baz'', JNum 0, JFn 9] =
      [BeforeRan 0 5 [JStr ''baz'', JNum 0, BeforeNext 1],
       BeforeRan 1 1 [JStr ''baz'', JNum 0, BeforeNext 2],
       CallbackRan (JFn 9) [JError ''Invalid'']]"
    by (simp add: engine_defs)
  have ev: "BeforeRan 1 1 [JStr ''baz'', JNum 0, BeforeNext 2]
       \<in> set (invoke demo_F (demo_host 0 [5, 1, 5] [2]) ''save'' [JStr ''baz'', JNum 0, JFn 9])"
    unfolding tr by simp
  have b: "body (demo_F 1) [JStr ''baz'', JNum 0, BeforeNext 2] = CallNext [JError ''Invalid'']"
    by (simp add: demo_F_def)
  have e: "instanceofError (firstArg [JError ''Invalid''])" by (simp add: firstArg_def)
  from before_hook_error_aborts[OF m ev b e] m ev b e show ?thesis
    by (simp add: firstArg_def js_get_def lastIndex_def)
qed

section \<open>A target that reports an error\<close>

text \<open>
  Claim C3 says that a truthy first argument of the target's callback skips the
  after-hooks. The engine tests \<^verbatim>\<open>error instanceof Error\<close>, so a truthy value that is
  not an \<^verbatim>\<open>Error\<close> is an ordinary result: below, the target calls back with the string
  \<open>''failed''\<close> and the after-hook runs.
\<close>

theorem truthy_target_result_runs_after_hook:
  "truthy (JStr ''failed'')
   \<and> body (demo_F 6) [JStr ''foo'', JNum 0, TargetCallback] = CallNext [JStr ''failed'']
   \<and> invoke demo_F (demo_host 6 [] [8]) ''save'' [JStr ''foo'', JNum 0, JFn 9] =
       [TargetRan 6 [JStr ''foo'', JNum 0, TargetCallback],
        AfterRan 0 8 [JStr ''failed'', AfterNext 1],
        CallbackRan (JFn 9) [JStr ''failed'']]"
  by (simp add: engine_defs)

text \<open>
  Claim C3, amended: if the target calls its callback with an \<^verbatim>\<open>Error\<close> object as first
  argument, then no after-hook runs and the caller's callback is invoked exactly once,
  with that error alone.
\<close>

theorem target_error_skips_after_hooks:
  assumes "methods h name = Wrapper name (Target t)"
    and "TargetRan t w \<in> set (invoke F h name args)"
    and "body (F t) w = CallNext as" and "instanceofError (firstArg as)"
  shows "(\<forall>j g u. AfterRan j g u \<notin> set (invoke F h name args))
       \<and> filter is_callback (invoke F h name args) =
           [CallbackRan (js_get args (lastIndex args)) [firstArg as]]"
proof -
  let ?cb = "js_get args (lastIndex args)"
  have cb: "isFunction ?cb" using invoke_asserts[OF assms(1,2)] by simp
  have run: "invoke F h name args = runBeforeHook F h name (target F t) JNull 0 args args"
    using invoke_run[OF assms(1) cb] .
  have mem: "TargetRan t w \<in> set (runBeforeHook F h name (target F t) JNull 0 args args)"
    using assms(2) run by simp
  from target_error_abort[OF cb mem assms(3,4)] run
  obtain pre where P: "invoke F h name args = pre @ [TargetRan t w, CallbackRan ?cb [firstArg as]]"
      "\<forall>ev\<in>set pre. \<exists>k g u. ev = BeforeRan k g u"
    by auto
  have "filter is_callback pre = []" using P(2) by (auto simp: filter_empty_conv)
  then have "filter is_callback (invoke F h name args) = [CallbackRan ?cb [firstArg as]]"
    using P(1) by simp
  moreover have "\<forall>j g u. AfterRan j g u \<notin> set (invoke F h name args)"
    using P by fastforce
  ultimately show ?thesis by blast
qed

theorem target_error_skips_after_hooks_witness:
  "methods (demo_host 0 [5] [2, 2]) ''save'' = Wrapper ''save'' (Target 0)
   \<and> TargetRan 0 [JStr ''baz'', JNum 0, TargetCallback]
       \<in> set (invoke demo_F (demo_host 0 [5] [2, 2]) ''save'' [JStr ''baz'', JNum 0, JFn 9])
   \<and> body (demo_F 0) [JStr ''baz'', JNum 0, TargetCallback] = CallNext [JError '':('']
   \<and> instanceofError (firstArg [JError '':(''])
   \<and> (\<forall>j g u. AfterRan j g u \<notin> set (invoke demo_F (demo_host 0 [5] [2, 2]) ''save''
                                     [JStr ''baz'', JNum 0, JFn 9]))
   \<and> filter is_callback (invoke demo_F (demo_host 0 [5] [2, 2]) ''save'' [JStr ''baz'', JNum 0, JFn 9]) =
       [CallbackRan (JFn 9) [JError '':('']]"
proof -
  have m: "methods (demo_host 0 [5] [2, 2]) ''save'' = Wrapper ''save'' (Target 0)"
    by (simp add: demo_host_def)
  have tr: "invoke demo_F (demo_host 0 [5] [2, 2]) ''save'' [JStr ''baz'', JNum 0, JFn 9] =
      [BeforeRan 0 5 [JStr ''baz'', JNum 0, BeforeNext 1],
       TargetRan 0 [JStr ''baz'', JNum 0, TargetCallback],
       CallbackRan (JFn 9) [JError '':('']]"
    by (simp add: engine_defs)
  have ev: "TargetRan 0 [JStr ''baz'', JNum 0, TargetCallback]
       \<in> set (invoke demo_F (demo_host 0 [5] [2, 2]) ''save'' [JStr ''baz'', JNum 0, JFn 9])"
    unfolding tr by simp
  have b: "body (demo_F 0) [JStr ''baz'', JNum 0, TargetCallback] = CallNext [JError '':('']"
    by (simp add: demo_F_def)
  have e: "instanceofError (firstArg [JError '':(''])" by (simp add: firstArg_def)
  from target_error_skips_after_hooks[OF m ev b e] m ev b e show ?thesis
    by (simp add: firstArg_def js_get_def lastIndex_def)
qed

section \<open>A successful call\<close>

text \<open>
  Claim C4: with \<open>m\<close> registered before-hooks and \<open>n\<close> registered after-hooks, a call in
  which no hook reports an error and the target's callback reports none runs exactly the
  \<open>m\<close> before-hooks, then the target once, then exactly the \<open>n\<close> after-hooks, each chain in
  registration order with no hook skipped or repeated (and then the caller's callback).
  Here every hook declares its continuation parameter and every function that ran called
  its continuation.
\<close>

theorem successful_call_runs_every_hook_once:
  assumes "methods h name = Wrapper name (Target t)"
    and "before_tab h name = Some bs" and "after_tab h name = Some afs"
    and "isFunction (js_get args (lastIndex args))"
    and "\<forall>g\<in>set bs \<union> set afs. declares_next F g"
    and "\<forall>ev\<in>set (invoke F h name args). replied_ok F ev"
  shows "map step_of (invoke F h name args) =
           map (\<lambda>i. BeforeStep i (bs ! i)) [0..<length bs] @ [TargetStep t] @
           map (\<lambda>j. AfterStep j (afs ! j)) [0..<length afs] @
           [CallbackStep (js_get args (lastIndex args))]"
proof -
  have e: "\<not> instanceofError JNull" by simp
  have run: "invoke F h name args = runBeforeHook F h name (target F t) JNull 0 args args"
    using invoke_run[OF assms(1,4)] .
  have ok: "\<forall>ev\<in>set (runBeforeHook F h name (target F t) JNull 0 args args). replied_ok F ev"
    using assms(6) run by simp
  show ?thesis
    using before_steps[OF assms(4) e assms(2,3,5) ok] run by simp
qed

theorem successful_call_runs_every_hook_once_witness:
  "methods (demo_host 0 [1, 5] [2, 2]) ''save'' = Wrapper ''save'' (Target 0)
   \<and> before_tab (demo_host 0 [1, 5] [2, 2]) ''save'' = Some [1, 5]
   \<and> after_tab (demo_host 0 [1, 5] [2, 2]) ''save'' = Some [2, 2]
   \<and> isFunction (js_get [JStr ''foo'', JNum 0, JFn 9] (lastIndex [JStr ''foo'', JNum 0, JFn 9]))
   \<and> list_all (declares_next demo_F) ([1, 5] @ [2, 2])
   \<and> list_all (replied_ok demo_F)
         (invoke demo_F (demo_host 0 [1, 5] [2, 2]) ''save'' [JStr ''foo'', JNum 0, JFn 9])
   \<and> map step_of (invoke demo_F (demo_host 0 [1, 5] [2, 2]) ''save'' [JStr ''foo'', JNum 0, JFn 9]) =
       [BeforeStep 0 1, BeforeStep 1 5, TargetStep 0, AfterStep 0 2, AfterStep 1 2, CallbackStep (JFn 9)]"
proof -
  let ?h = "demo_host 0 [1, 5] [2, 2]"
  let ?args = "[JStr ''foo'', JNum 0, JFn 9]"
  have m: "methods ?h ''save'' = Wrapper ''save'' (Target 0)" by (simp add: demo_host_def)
  have b: "before_tab ?h ''save'' = Some [1, 5]" by (simp add: demo_host_def)
  have a: "after_tab ?h ''save'' = Some [2, 2]" by (simp add: demo_host_def)
  have cb: "isFunction (js_get ?args (lastIndex ?args))" by (simp add: js_get_def lastIndex_def)
  have d: "\<forall>g\<in>set [1, 5] \<union> set [2, 2]. declares_next demo_F g"
    by (simp add: declares_next_def demo_F_def)
  have tr: "invoke demo_F ?h ''save'' ?args =
      [BeforeRan 0 1 [JStr ''foo'', JNum 0, BeforeNext 1],
       BeforeRan 1 5 [JStr ''foo'', JNum 0, BeforeNext 2],
       TargetRan 0 [JStr ''foo'', JNum 1, TargetCallback],
       AfterRan 0 2 [JNull, JStr ''bar'', JNum 2, AfterNext 1],
       AfterRan 1 2 [JNull, JStr ''bar'', JNum 2, AfterNext 2],
       CallbackRan (JFn 9) [JNull, JStr ''bar'', JNum 2]]"
    by (simp add: engine_defs)
  have ok: "\<forall>ev\<in>set (invoke demo_F ?h ''save'' ?args). replied_ok demo_F ev"
    unfolding tr by (simp add: demo_F_def no_error_def firstArg_def increment_def)
  have "map step_of (invoke demo_F ?h ''save'' ?args) =
       [BeforeStep 0 1, BeforeStep 1 5, TargetStep 0, AfterStep 0 2, AfterStep 1 2, CallbackStep (JFn 9)]"
    using successful_call_runs_every_hook_once[OF m b a cb d ok]
    by (simp add: upt_rec js_get_def lastIndex_def)
  then show ?thesis using m b a cb d ok by (simp add: list_all_iff)
qed

section \<open>One callback per call\<close>

text \<open>
  Claim C7: in a call where every hook that runs calls its continuation, the target's
  callback fires, and no registered hook is without parameters, the caller's callback is
  invoked exactly once (with the error alone or with a result vector): the trace holds
  exactly one callback event, it is the last event, and nothing is thrown.
\<close>

theorem callback_invoked_exactly_once:
  assumes "methods h name = Wrapper name (Target t)"
    and "before_tab h name = Some bs" and "after_tab h name = Some afs"
    and "isFunction (js_get args (lastIndex args))"
    and "\<forall>g\<in>set bs \<union> set afs. declares_next F g"
    and "\<forall>ev\<in>set (invoke F h name args). replied F ev"
  shows "\<exists>as. filter is_callback (invoke F h name args) = [CallbackRan (js_get args (lastIndex args)) as]
           \<and> last (invoke F h name args) = CallbackRan (js_get args (lastIndex args)) as
           \<and> filter is_threw (invoke F h name args) = []"
proof -
  have run: "invoke F h name args = runBeforeHook F h name (target F t) JNull 0 args args"
    using invoke_run[OF assms(1,4)] .
  have ok: "\<forall>ev\<in>set (runBeforeHook F h name (target F t) JNull 0 args args). replied F ev"
    using assms(6) run by simp
  obtain pre as where P: "invoke F h name args = pre @ [CallbackRan (js_get args (lastIndex args)) as]"
      "\<forall>ev\<in>set pre. quiet ev"
    using before_once[OF assms(4) assms(2,3,5) ok] run by auto
  have "filter is_callback pre = []" "filter is_threw pre = []"
    using P(2) by (auto simp: quiet_def filter_empty_conv)
  then show ?thesis using P(1) by simp
qed

theorem callback_invoked_exactly_once_witness:
  "methods (demo_host 0 [5, 1] [2]) ''save'' = Wrapper ''save'' (Target 0)
   \<and> before_tab (demo_host 0 [5, 1] [2]) ''save'' = Some [5, 1]
   \<and> after_tab (demo_host 0 [5, 1] [2]) ''save'' = Some [2]
   \<and> isFunction (js_get [JStr ''baz'', JNum 0, JFn 9] (lastIndex [JStr ''baz'', JNum 0, JFn 9]))
   \<and> list_all (declares_next demo_F) ([5, 1] @ [2])
   \<and> list_all (replied demo_F)
         (invoke demo_F (demo_host 0 [5, 1] [2]) ''save'' [JStr ''baz'', JNum 0, JFn 9])
   \<and> (\<exists>as. filter is_callback (invoke demo_F (demo_host 0 [5, 1] [2]) ''save'' [JStr ''baz'', JNum 0, JFn 9]) =
          [CallbackRan (JFn 9) as])"
proof -
  let ?h = "demo_host 0 [5, 1] [2]"
  let ?args = "[JStr ''baz'', JNum 0, JFn 9]"
  have m: "methods ?h ''save'' = Wrapper ''save'' (Target 0)" by (simp add: demo_host_def)
  have b: "before_tab ?h ''save'' = Some [5, 1]" by (simp add: demo_host_def)
  have a: "after_tab ?h ''save'' = Some [2]" by (simp add: demo_host_def)
  have cb: "isFunction (js_get ?args (lastIndex ?args))" by (simp add: js_get_def lastIndex_def)
  have d: "\<forall>g\<in>set [5, 1] \<union> set [2]. declares_next demo_F g"
    by (simp add: declares_next_def demo_F_def)
  have tr: "invoke demo_F ?h ''save'' ?args =
      [BeforeRan 0 5 [JStr ''baz'', JNum 0, BeforeNext 1],
       BeforeRan 1 1 [JStr ''baz'', JNum 0, BeforeNext 2],
       CallbackRan (JFn 9) [JError ''Invalid'']]"
    by (simp add: engine_defs)
  have ok: "\<forall>ev\<in>set (invoke demo_F ?h ''save'' ?args). replied demo_F ev"
    unfolding tr by (simp add: demo_F_def)
  have cbv: "js_get ?args (lastIndex ?args) = JFn 9" by (simp add: js_get_def lastIndex_def)
  from callback_invoked_exactly_once[OF m b a cb d ok]
  have "\<exists>as. filter is_callback (invoke demo_F ?h ''save'' ?args) = [CallbackRan (JFn 9) as]"
    unfolding cbv by blast
  then show ?thesis using m b a cb d ok by (simp add: list_all_iff)
qed

section \<open>The vectors the hooks are called with\<close>

text \<open>
  Claim C8: every before-hook is called with a copy of the original call-time arguments
  whose last slot holds a fresh continuation, whatever the current vector is; every
  after-hook is called with the current result vector and a continuation appended after
  all of its values.
\<close>

theorem hook_call_vectors:
  assumes "methods h name = Wrapper name (Target t)"
    and "before_tab h name = Some bs" and "after_tab h name = Some afs"
  shows "(\<forall>i f v. BeforeRan i f v \<in> set (invoke F h name args) \<longrightarrow>
            i < length bs \<and> f = bs ! i \<and> v = butlast args @ [BeforeNext (i + 1)])
       \<and> (\<forall>j g u. AfterRan j g u \<in> set (invoke F h name args) \<longrightarrow>
            j < length afs \<and> g = afs ! j \<and> u \<noteq> [] \<and> last u = AfterNext (j + 1))
       \<and> (\<not> instanceofError e \<and> i < length bs \<and> arity (F (bs ! i)) \<noteq> 0 \<and> orig \<noteq> [] \<longrightarrow>
            hd (runBeforeHook F h name ofn e i orig cur) =
              BeforeRan i (bs ! i) (butlast orig @ [BeforeNext (i + 1)]))
       \<and> (isFunction cb \<and> \<not> instanceofError e \<and> j < length afs \<and> arity (F (afs ! j)) \<noteq> 0 \<longrightarrow>
            hd (runAfterHook F h name e j cb res) = AfterRan j (afs ! j) (res @ [AfterNext (j + 1)]))"
proof (intro conjI allI impI)
  fix i f v assume ev: "BeforeRan i f v \<in> set (invoke F h name args)"
  have cb: "isFunction (js_get args (lastIndex args))" using invoke_asserts[OF assms(1) ev] by simp
  then have ne: "args \<noteq> []" by (rule function_slot_nonempty)
  have "BeforeRan i f v \<in> set (runBeforeHook F h name (target F t) JNull 0 args args)"
    using ev invoke_run[OF assms(1) cb, of F] by simp
  from before_events[OF assms(2,3) this]
  have "before_event bs args 0 (BeforeRan i f v)" by (auto simp: after_event_def)
  then show "i < length bs" and "f = bs ! i" and "v = butlast args @ [BeforeNext (i + 1)]"
    using js_set_last[OF ne] by (auto simp: before_event_def)
next
  fix j g u assume ev: "AfterRan j g u \<in> set (invoke F h name args)"
  have cb: "isFunction (js_get args (lastIndex args))" using invoke_asserts[OF assms(1) ev] by simp
  have "AfterRan j g u \<in> set (runBeforeHook F h name (target F t) JNull 0 args args)"
    using ev invoke_run[OF assms(1) cb, of F] by simp
  from before_events[OF assms(2,3) this]
  have "after_event afs 0 (AfterRan j g u)" by (auto simp: before_event_def)
  then show "j < length afs" and "g = afs ! j" and "u \<noteq> []" and "last u = AfterNext (j + 1)"
    by (auto simp: after_event_def)
next
  assume a: "\<not> instanceofError e \<and> i < length bs \<and> arity (F (bs ! i)) \<noteq> 0 \<and> orig \<noteq> []"
  then show "hd (runBeforeHook F h name ofn e i orig cur) =
      BeforeRan i (bs ! i) (butlast orig @ [BeforeNext (i + 1)])"
    using assms(2) by (simp add: runBeforeHook_step js_set_last)
next
  assume a: "isFunction cb \<and> \<not> instanceofError e \<and> j < length afs \<and> arity (F (afs ! j)) \<noteq> 0"
  then show "hd (runAfterHook F h name e j cb res) = AfterRan j (afs ! j) (res @ [AfterNext (j + 1)])"
    using assms(3) by (simp add: runAfterHook_step)
qed


theorem hook_call_vectors_witness:
  "methods (demo_host 0 [1, 5] [2, 2]) ''save'' = Wrapper ''save'' (Target 0)
   \<and> before_tab (demo_host 0 [1, 5] [2, 2]) ''save'' = Some [1, 5]
   \<and> after_tab (demo_host 0 [1, 5] [2, 2]) ''save'' = Some [2, 2]
   \<and> BeforeRan 1 5 [JStr ''foo'', JNum 0, BeforeNext 2]
       \<in> set (invoke demo_F (demo_host 0 [1, 5] [2, 2]) ''save'' [JStr ''foo'', JNum 0, JFn 9])
   \<and> [JStr ''foo'', JNum 0, BeforeNext 2] = butlast [JStr ''foo'', JNum 0, JFn 9] @ [BeforeNext (1 + 1)]
   \<and> AfterRan 1 2 [JNull, JStr ''bar'', JNum 2, AfterNext 2]
       \<in> set (invoke demo_F (demo_host 0 [1, 5] [2, 2]) ''save'' [JStr ''foo'', JNum 0, JFn 9])
   \<and> last [JNull, JStr ''bar'', JNum 2, AfterNext 2] = AfterNext (1 + 1)"
proof -
  let ?h = "demo_host 0 [1, 5] [2, 2]"
  let ?args = "[JStr ''foo'', JNum 0, JFn 9]"
  have m: "methods ?h ''save'' = Wrapper ''save'' (Target 0)" by (simp add: demo_host_def)
  have b: "before_tab ?h ''save'' = Some [1, 5]" by (simp add: demo_host_def)
  have a: "after_tab ?h ''save'' = Some [2, 2]" by (simp add: demo_host_def)
  have tr: "invoke demo_F ?h ''save'' ?args =
      [BeforeRan 0 1 [JStr ''foo'', JNum 0, BeforeNext 1],
       BeforeRan 1 5 [JStr ''foo'', JNum 0, BeforeNext 2],
       TargetRan 0 [JStr ''foo'', JNum 1, TargetCallback],
       AfterRan 0 2 [JNull, JStr ''bar'', JNum 2, AfterNext 1],
       AfterRan 1 2 [JNull, JStr ''bar'', JNum 2, AfterNext 2],
       CallbackRan (JFn 9) [JNull, JStr ''bar'', JNum 2]]"
    by (simp add: engine_defs)
  have e1: "BeforeRan 1 5 [JStr ''foo'', JNum 0, BeforeNext 2] \<in> set (invoke demo_F ?h ''save'' ?args)"
    unfolding tr by simp
  have e2: "AfterRan 1 2 [JNull, JStr ''bar'', JNum 2, AfterNext 2] \<in> set (invoke demo_F ?h ''save'' ?args)"
    unfolding tr by simp
  from hook_call_vectors[OF m b a, of demo_F ?args] e1
  have v1: "[JStr ''foo'', JNum 0, BeforeNext 2] = butlast ?args @ [BeforeNext (1 + 1)]" by blast
  from hook_call_vectors[OF m b a, of demo_F ?args] e2
  have v2: "last [JNull, JStr ''bar'', JNum 2, AfterNext 2] = AfterNext (1 + 1)" by blast
  show ?thesis using m b a e1 e2 v1 v2 by blast
qed

section \<open>Overriding the arguments in a before-hook\<close>

text \<open>
  Claim C2 says that after a before-hook calls its continuation with \<open>(null, a, b)\<close> the
  next before-hook receives \<open>a, b\<close>, and that after a call with no arguments the next
  stage receives what the current hook received. Every before-hook is called on a copy of
  the original arguments, and the override only travels along to the target. Below, the
  first before-hook overrides with \<open>10, 20\<close>; the second still receives \<open>''foo'', 0\<close>; it
  calls its continuation with no arguments, and the target receives \<open>10, 20\<close>, which is not
  what the second hook received.
\<close>

theorem override_not_seen_by_next_before_hook:
  "body (demo_F 7) [JStr ''foo'', JNum 0, BeforeNext 1] = CallNext [JNull, JNum 10, JNum 20]
   \<and> body (demo_F 5) [JStr ''foo'', JNum 0, BeforeNext 2] = CallNext []
   \<and> invoke demo_F (demo_host 0 [7, 5] []) ''save'' [JStr ''foo'', JNum 0, JFn 9] =
       [BeforeRan 0 7 [JStr ''foo'', JNum 0, BeforeNext 1],
        BeforeRan 1 5 [JStr ''foo'', JNum 0, BeforeNext 2],
        TargetRan 0 [JNum 10, JNum 20, TargetCallback],
        CallbackRan (JFn 9) [JError '':('']]"
  by (simp add: engine_defs)

text \<open>
  Claim C2, amended: in a call of a hooked method in which every before-hook that calls
  its continuation calls it either with no arguments or with \<^verbatim>\<open>null\<close> followed by as many
  values as the call has leading arguments (at least one), the target, when it runs,
  receives as its leading arguments the values of the most recent before-hook that passed
  any (\<open>a, b\<close> after \<^verbatim>\<open>(null, a, b)\<close>, also when later hooks called with no arguments), or
  the leading arguments of the call when every before-hook called with no arguments,
  followed by the callback that the chain supplies; and every before-hook that runs
  receives the leading arguments of the call, whatever the hooks before it passed on.
\<close>

theorem overrides_reach_the_target:
  assumes "methods h name = Wrapper name (Target t)"
    and "TargetRan t w \<in> set (invoke F h name args)"
    and "\<forall>as\<in>set (before_replies F (invoke F h name args)). passes_or_overrides args as"
  shows "w = leading_in_force args (before_replies F (invoke F h name args)) @ [TargetCallback]
       \<and> (\<forall>i f v. BeforeRan i f v \<in> set (invoke F h name args) \<longrightarrow>
             v = butlast args @ [BeforeNext (i + 1)])"
proof
  let ?tr = "invoke F h name args"
  let ?rs = "before_replies F ?tr"
  have cb: "isFunction (js_get args (lastIndex args))" using invoke_asserts[OF assms(1,2)] by simp
  then have ne: "args \<noteq> []" by (rule function_slot_nonempty)
  have run: "?tr = runBeforeHook F h name (target F t) JNull 0 args args"
    using invoke_run[OF assms(1) cb] .
  have "w = js_set (foldl (\<lambda>c as. callbackArguments as c) args ?rs) (lastIndex args) TargetCallback"
    using target_vector_fold[of t w F h name JNull 0 args args] assms(2) run by simp
  then have w: "w = js_set (case filter (\<lambda>as. as \<noteq> []) ?rs of [] \<Rightarrow> args | os \<Rightarrow> tl (last os))
                      (lastIndex args) TargetCallback"
    using fold_in_force[OF assms(3), of args] by simp
  show "w = leading_in_force args ?rs @ [TargetCallback]"
  proof (cases "filter (\<lambda>as. as \<noteq> []) ?rs")
    case Nil
    then show ?thesis using w js_set_last[OF ne] by (simp add: leading_in_force_def)
  next
    case (Cons o1 os)
    let ?l = "last (o1 # os)"
    have "?l \<in> set (filter (\<lambda>as. as \<noteq> []) ?rs)" using Cons by (metis last_in_set list.distinct(1))
    then have l: "?l \<in> set ?rs" "?l \<noteq> []" by auto
    then have "passes_or_overrides args ?l" using assms(3) by blast
    then have "length (tl ?l) + 1 = length args"
      using l(2) by (cases ?l) (auto simp: passes_or_overrides_def)
    then have li: "lastIndex args = int (length (tl ?l))" by (simp add: lastIndex_def)
    have "js_set (tl ?l) (lastIndex args) TargetCallback = tl ?l @ [TargetCallback]"
      unfolding li by (rule js_set_end)
    moreover have "w = js_set (tl ?l) (lastIndex args) TargetCallback"
      using w unfolding Cons by (simp only: list.case)
    moreover have "leading_in_force args ?rs = tl ?l"
      unfolding leading_in_force_def Cons by (simp only: list.case)
    ultimately show ?thesis by (simp only:)
  qed
next
  show "\<forall>i f v. BeforeRan i f v \<in> set (invoke F h name args) \<longrightarrow>
             v = butlast args @ [BeforeNext (i + 1)]"
  proof (intro allI impI)
    fix i f v assume ev: "BeforeRan i f v \<in> set (invoke F h name args)"
    have cb: "isFunction (js_get args (lastIndex args))" using invoke_asserts[OF assms(1) ev] by simp
    then have ne: "args \<noteq> []" by (rule function_slot_nonempty)
    have mem: "BeforeRan i f v \<in> set (runBeforeHook F h name (target F t) JNull 0 args args)"
      using ev invoke_run[OF assms(1) cb, of F] by simp
    obtain bs where bs: "before_tab h name = Some bs" using before_ran_needs_list[OF mem] by blast
    from before_index_bound[OF bs mem]
    show "v = butlast args @ [BeforeNext (i + 1)]"
      using js_set_last[OF ne] by (auto simp: before_event_def)
  qed
qed

theorem overrides_reach_the_target_witness:
  "methods (demo_host 0 [7, 5] []) ''save'' = Wrapper ''save'' (Target 0)
   \<and> TargetRan 0 [JNum 10, JNum 20, TargetCallback]
       \<in> set (invoke demo_F (demo_host 0 [7, 5] []) ''save'' [JStr ''foo'', JNum 0, JFn 9])
   \<and> before_replies demo_F (invoke demo_F (demo_host 0 [7, 5] []) ''save'' [JStr ''foo'', JNum 0, JFn 9]) =
       [[JNull, JNum 10, JNum 20], []]
   \<and> list_all (passes_or_overrides [JStr ''foo'', JNum 0, JFn 9]) [[JNull, JNum 10, JNum 20], []]
   \<and> leading_in_force [JStr ''foo'', JNum 0, JFn 9] [[JNull, JNum 10, JNum 20], []] = [JNum 10, JNum 20]
   \<and> [JNum 10, JNum 20, TargetCallback] =
       leading_in_force [JStr ''foo'', JNum 0, JFn 9]
         (before_replies demo_F (invoke demo_F (demo_host 0 [7, 5] []) ''save'' [JStr ''foo'', JNum 0, JFn 9]))
         @ [TargetCallback]"
proof -
  let ?h = "demo_host 0 [7, 5] []"
  let ?args = "[JStr ''foo'', JNum 0, JFn 9]"
  have m: "methods ?h ''save'' = Wrapper ''save'' (Target 0)" by (simp add: demo_host_def)
  have tr: "invoke demo_F ?h ''save'' ?args =
      [BeforeRan 0 7 [JStr ''foo'', JNum 0, BeforeNext 1],
       BeforeRan 1 5 [JStr ''foo'', JNum 0, BeforeNext 2],
       TargetRan 0 [JNum 10, JNum 20, TargetCallback],
       CallbackRan (JFn 9) [JError '':('']]"
    by (simp add: engine_defs)
  have ev: "TargetRan 0 [JNum 10, JNum 20, TargetCallback] \<in> set (invoke demo_F ?h ''save'' ?args)"
    unfolding tr by simp
  have rs: "before_replies demo_F (invoke demo_F ?h ''save'' ?args) = [[JNull, JNum 10, JNum 20], []]"
    unfolding tr by (simp add: demo_F_def)
  have po: "\<forall>as\<in>set (before_replies demo_F (invoke demo_F ?h ''save'' ?args)). passes_or_overrides ?args as"
    unfolding rs by (simp add: passes_or_overrides_def)
  have lf: "leading_in_force ?args [[JNull, JNum 10, JNum 20], []] = [JNum 10, JNum 20]"
    by (simp add: leading_in_force_def)
  from overrides_reach_the_target[OF m ev po]
  have "[JNum 10, JNum 20, TargetCallback] =
       leading_in_force ?args (before_replies demo_F (invoke demo_F ?h ''save'' ?args)) @ [TargetCallback]"
    by blast
  then show ?thesis using m ev rs po lf by (simp add: list_all_iff)
qed

section \<open>Removing hooks\<close>

text \<open>
  Claim C6 says that \<^verbatim>\<open>removeBefore(name, fn)\<close> removes exactly one occurrence of \<open>fn\<close>.
  The list is filtered, so a function that was registered twice is removed twice.
\<close>

theorem remove_before_removes_both_occurrences:
  "count_list [1, 5, 1] (1::nat) = 2 \<and>
   removeBefore (demo_host 0 [1, 5, 1] []) ''save'' (Some 1) = Inr (demo_host 0 [5] [])"
  by (simp add: removeBefore_def demo_host_def)

text \<open>
  Claim C6, amended: for a name whose lists exist, \<^verbatim>\<open>removeBefore(name, fn)\<close> removes
  every occurrence of \<open>fn\<close> from the before list (as many entries as \<open>fn\<close> occurs, so
  exactly one when it was registered once) and leaves every other entry in place and in
  order; \<^verbatim>\<open>removeBefore(name)\<close> empties the before list; nothing else of the host
  changes; and the same holds of \<^verbatim>\<open>removeAfter\<close> and the after list.
\<close>

theorem remove_hooks:
  assumes "before_tab h name = Some bs" and "after_tab h name = Some afs"
  shows "(\<exists>h' bs'. removeBefore h name (Some fn) = Inr h' \<and>
            before_tab h' = (before_tab h)(name \<mapsto> bs') \<and> after_tab h' = after_tab h \<and>
            methods h' = methods h \<and>
            fn \<notin> set bs' \<and> subseq bs' bs \<and>
            (\<forall>g. g \<noteq> fn \<longrightarrow> count_list bs' g = count_list bs g) \<and>
            length bs' + count_list bs fn = length bs)
       \<and> (\<exists>h'. removeBefore h name None = Inr h' \<and>
            before_tab h' = (before_tab h)(name \<mapsto> []) \<and> after_tab h' = after_tab h \<and>
            methods h' = methods h)
       \<and> (\<exists>h' afs'. removeAfter h name (Some fn) = Inr h' \<and>
            after_tab h' = (after_tab h)(name \<mapsto> afs') \<and> before_tab h' = before_tab h \<and>
            methods h' = methods h \<and>
            fn \<notin> set afs' \<and> subseq afs' afs \<and>
            (\<forall>g. g \<noteq> fn \<longrightarrow> count_list afs' g = count_list afs g) \<and>
            length afs' + count_list afs fn = length afs)
       \<and> (\<exists>h'. removeAfter h name None = Inr h' \<and>
            after_tab h' = (after_tab h)(name \<mapsto> []) \<and> before_tab h' = before_tab h \<and>
            methods h' = methods h)"
proof (intro conjI)
  let ?bs' = "filter (\<lambda>c. c \<noteq> fn) bs"
  let ?h' = "h\<lparr>before_tab := (before_tab h)(name \<mapsto> ?bs')\<rparr>"
  have "removeBefore h name (Some fn) = Inr ?h'" using assms(1) by (simp add: removeBefore_def)
  moreover have "before_tab ?h' = (before_tab h)(name \<mapsto> ?bs')" "after_tab ?h' = after_tab h"
    "methods ?h' = methods h" by simp_all
  moreover have "fn \<notin> set ?bs'" "subseq ?bs' bs" by simp_all
  moreover have "\<forall>g. g \<noteq> fn \<longrightarrow> count_list ?bs' g = count_list bs g" by (simp add: filter_out_count)
  moreover have "length ?bs' + count_list bs fn = length bs" by (rule filter_out_length)
  ultimately show "\<exists>h' bs'. removeBefore h name (Some fn) = Inr h' \<and>
            before_tab h' = (before_tab h)(name \<mapsto> bs') \<and> after_tab h' = after_tab h \<and>
            methods h' = methods h \<and>
            fn \<notin> set bs' \<and> subseq bs' bs \<and>
            (\<forall>g. g \<noteq> fn \<longrightarrow> count_list bs' g = count_list bs g) \<and>
            length bs' + count_list bs fn = length bs" by blast
next
  show "\<exists>h'. removeBefore h name None = Inr h' \<and>
            before_tab h' = (before_tab h)(name \<mapsto> []) \<and> after_tab h' = after_tab h \<and>
            methods h' = methods h"
    using assms(1) by (simp add: removeBefore_def)
next
  let ?afs' = "filter (\<lambda>c. c \<noteq> fn) afs"
  let ?h' = "h\<lparr>after_tab := (after_tab h)(name \<mapsto> ?afs')\<rparr>"
  have "removeAfter h name (Some fn) = Inr ?h'" using assms(2) by (simp add: removeAfter_def)
  moreover have "after_tab ?h' = (after_tab h)(name \<mapsto> ?afs')" "before_tab ?h' = before_tab h"
    "methods ?h' = methods h" by simp_all
  moreover have "fn \<notin> set ?afs'" "subseq ?afs' afs" by simp_all
  moreover have "\<forall>g. g \<noteq> fn \<longrightarrow> count_list ?afs' g = count_list afs g" by (simp add: filter_out_count)
  moreover have "length ?afs' + count_list afs fn = length afs" by (rule filter_out_length)
  ultimately show "\<exists>h' afs'. removeAfter h name (Some fn) = Inr h' \<and>
            after_tab h' = (after_tab h)(name \<mapsto> afs') \<and> before_tab h' = before_tab h \<and>
            methods h' = methods h \<and>
            fn \<notin> set afs' \<and> subseq afs' afs \<and>
            (\<forall>g. g \<noteq> fn \<longrightarrow> count_list afs' g = count_list afs g) \<and>
            length afs' + count_list afs fn = length afs" by blast
next
  show "\<exists>h'. removeAfter h name None = Inr h' \<and>
            after_tab h' = (after_tab h)(name \<mapsto> []) \<and> before_tab h' = before_tab h \<and>
            methods h' = methods h"
    using assms(2) by (simp add: removeAfter_def)
qed


theorem remove_hooks_witness:
  "before_tab (demo_host 0 [1, 5, 1] [2]) ''save'' = Some [1, 5, 1]
   \<and> after_tab (demo_host 0 [1, 5, 1] [2]) ''save'' = Some [2]
   \<and> (\<exists>h' bs'. removeBefore (demo_host 0 [1, 5, 1] [2]) ''save'' (Some 5) = Inr h' \<and>
         before_tab h' ''save'' = Some bs' \<and> 5 \<notin> set bs' \<and> subseq bs' [1, 5, 1] \<and>
         length bs' + 1 = 3)
   \<and> (\<exists>h'. removeAfter (demo_host 0 [1, 5, 1] [2]) ''save'' None = Inr h' \<and>
         after_tab h' ''save'' = Some [])"
proof -
  let ?h = "demo_host 0 [1, 5, 1] [2]"
  have b: "before_tab ?h ''save'' = Some [1, 5, 1]" by (simp add: demo_host_def)
  have a: "after_tab ?h ''save'' = Some [2]" by (simp add: demo_host_def)
  from remove_hooks[OF b a, of 5] obtain h' bs' where
    1: "removeBefore ?h ''save'' (Some 5) = Inr h'"
       "before_tab h' = (before_tab ?h)(''save'' \<mapsto> bs')" "5 \<notin> set bs'" "subseq bs' [1, 5, 1]"
       "length bs' + count_list [1, 5, 1] (5::nat) = length [1, 5, 1::nat]"
    by blast
  from remove_hooks[OF b a, of 5] obtain h'' where
    2: "removeAfter ?h ''save'' None = Inr h''" "after_tab h'' = (after_tab ?h)(''save'' \<mapsto> [])"
    by blast
  have "before_tab h' ''save'' = Some bs'" using 1(2) by simp
  moreover have "length bs' + 1 = 3" using 1(5) by simp
  moreover have "after_tab h'' ''save'' = Some []" using 2(2) by simp
  ultimately show ?thesis using a b 1(1,3,4) 2(1) by blast
qed

section \<open>Installing the wrapper once\<close>




end
